theory Spec2Isabelle
  imports Main "HOL-Library.Word" "HOL-Library.Sublist"
begin

section \<open>Rate limiting simulator\<close>

text \<open>
  The component \<^verbatim>\<open>RateLimitingSimulator\<close> keeps three pieces of React state that
  matter here: \<^verbatim>\<open>requests\<close>, \<^verbatim>\<open>blocked\<close> and \<^verbatim>\<open>timeToReset\<close>. They are JavaScript
  numbers that only ever hold small integers, so they are modelled as \<open>int\<close>. The
  \<^verbatim>\<open>logs\<close> state is written by \<^verbatim>\<open>addLog\<close> only and is never read by the logic below;
  it is left out of the record. Each handler is taken to run against the state committed
  by the previous one (a click and a timer callback are separate events).
\<close>

definition MAX_REQUESTS :: int where
  "MAX_REQUESTS = 10"

definition RESET_TIME :: int where
  "RESET_TIME = 30"

record rate_state =
  requests :: int
  blocked :: bool
  timeToReset :: int

definition initial_state :: rate_state where
  "initial_state = \<lparr>requests = 0, blocked = False, timeToReset = 0\<rparr>"

text \<open>
  \<^verbatim>\<open>handleRequest\<close>: a blocked click returns early; otherwise the new count is stored and,
  once it reaches \<^verbatim>\<open>MAX_REQUESTS\<close>, the block and the countdown start.
\<close>

definition handleRequest :: "rate_state \<Rightarrow> rate_state" where
  "handleRequest s =
     (if blocked s then s
      else
        let newCount = requests s + 1;
            s1 = s\<lparr>requests := newCount\<rparr>
        in if newCount \<ge> MAX_REQUESTS
           then s1\<lparr>blocked := True, timeToReset := RESET_TIME\<rparr>
           else s1)"

text \<open>
  One firing of the interval callback installed by the effect. The effect installs the
  timer only while \<^verbatim>\<open>blocked && timeToReset > 0\<close>; the callback's updater resets
  everything when the previous value is at most 1 and counts down otherwise.
\<close>

definition tick :: "rate_state \<Rightarrow> rate_state" where
  "tick s =
     (if blocked s \<and> timeToReset s > 0
      then (if timeToReset s \<le> 1
            then s\<lparr>blocked := False, requests := 0, timeToReset := 0\<rparr>
            else s\<lparr>timeToReset := timeToReset s - 1\<rparr>)
      else s)"

text \<open>The states the component can be in: any interleaving of clicks and timer ticks.\<close>

inductive reachable :: "rate_state \<Rightarrow> bool" where
  reach_init: "reachable initial_state"
| reach_request: "reachable s \<Longrightarrow> reachable (handleRequest s)"
| reach_tick: "reachable s \<Longrightarrow> reachable (tick s)"

section \<open>Input sanitization simulator\<close>

subsection \<open>Strings and character classes\<close>

text \<open>
  A JavaScript string is a sequence of UTF-16 code units, and a regular expression without
  the \<^verbatim>\<open>u\<close> flag matches code unit by code unit. \<open>js\<close> writes an ASCII literal as such a
  sequence.
\<close>

type_synonym code_unit = "16 word"
type_synonym jsstring = "code_unit list"

definition js :: "string \<Rightarrow> jsstring" where
  "js s = map of_char s"

text \<open>
  The atoms that occur in the patterns of this component: a literal character,
  \<^verbatim>\<open>[\s\S]\<close> (any code unit), \<^verbatim>\<open>.\<close> (anything but a line terminator), \<^verbatim>\<open>\s\<close>, \<^verbatim>\<open>\w\<close>
  and \<^verbatim>\<open>\d\<close>, with the character sets of the ECMAScript specification.
\<close>

datatype atom = Lit code_unit | AnyChar | Dot | Space | WordChar | Digit

definition is_line_terminator :: "code_unit \<Rightarrow> bool" where
  "is_line_terminator c \<longleftrightarrow> c \<in> {0x000A, 0x000D, 0x2028, 0x2029}"

definition is_space :: "code_unit \<Rightarrow> bool" where
  "is_space c \<longleftrightarrow>
     c \<in> {0x0009, 0x000A, 0x000B, 0x000C, 0x000D, 0x0020, 0x00A0, 0x1680,
          0x2028, 0x2029, 0x202F, 0x205F, 0x3000, 0xFEFF}
     \<or> (0x2000 \<le> c \<and> c \<le> 0x200A)"

definition is_digit :: "code_unit \<Rightarrow> bool" where
  "is_digit c \<longleftrightarrow> 0x30 \<le> c \<and> c \<le> 0x39"

definition is_word_char :: "code_unit \<Rightarrow> bool" where
  "is_word_char c \<longleftrightarrow>
     (0x61 \<le> c \<and> c \<le> 0x7A) \<or> (0x41 \<le> c \<and> c \<le> 0x5A) \<or> is_digit c \<or> c = 0x5F"

text \<open>
  Case folding under the \<^verbatim>\<open>i\<close> flag. Without the \<^verbatim>\<open>u\<close> flag a code unit above 127 is
  never folded onto an ASCII one, and every literal of the patterns below is ASCII, so
  folding the ASCII lower-case letters is all that can make a comparison succeed.
\<close>

definition canonicalize :: "bool \<Rightarrow> code_unit \<Rightarrow> code_unit" where
  "canonicalize ic c = (if ic \<and> 0x61 \<le> c \<and> c \<le> 0x7A then c - 0x20 else c)"

fun atom_matches :: "bool \<Rightarrow> atom \<Rightarrow> code_unit \<Rightarrow> bool" where
  "atom_matches ic (Lit a) c = (canonicalize ic a = canonicalize ic c)"
| "atom_matches ic AnyChar c = True"
| "atom_matches ic Dot c = (\<not> is_line_terminator c)"
| "atom_matches ic Space c = is_space c"
| "atom_matches ic WordChar c = is_word_char c"
| "atom_matches ic Digit c = is_digit c"

subsection \<open>The backtracking matcher\<close>

text \<open>
  Pattern syntax: concatenation, alternation \<^verbatim>\<open>|\<close>, the greedy \<^verbatim>\<open>*\<close>, the lazy \<^verbatim>\<open>*?\<close> and
  the greedy \<^verbatim>\<open>?\<close>. The patterns use neither anchors, look-around nor back-references,
  so a match attempt depends on the text from the current position onwards only, and
  capture groups have no effect.
\<close>

datatype regex =
    Empty
  | Atom atom
  | Seq regex regex
  | Alt regex regex
  | Star regex
  | LazyStar regex
  | Opt regex

text \<open>
  The matcher follows the continuation-passing semantics of the ECMAScript
  specification: \<open>matcher ic r s c\<close> tries \<open>r\<close> at the start of \<open>s\<close> and hands the rest
  to the continuation \<open>c\<close>; the first successful path wins, so greedy operators try the
  longer alternative first and lazy ones the shorter. An iteration of \<^verbatim>\<open>*\<close>, \<^verbatim>\<open>*?\<close> or
  \<^verbatim>\<open>?\<close> that consumes nothing is rejected, as in the specification's RepeatMatcher.
  The result is the text left after the match.
\<close>

function matcher ::
  "bool \<Rightarrow> regex \<Rightarrow> jsstring \<Rightarrow> (jsstring \<Rightarrow> jsstring option) \<Rightarrow> jsstring option" where
  "matcher ic Empty s c = c s"
| "matcher ic (Atom a) s c =
     (case s of [] \<Rightarrow> None | x # xs \<Rightarrow> if atom_matches ic a x then c xs else None)"
| "matcher ic (Seq r1 r2) s c = matcher ic r1 s (\<lambda>s'. matcher ic r2 s' c)"
| "matcher ic (Alt r1 r2) s c =
     (case matcher ic r1 s c of Some e \<Rightarrow> Some e | None \<Rightarrow> matcher ic r2 s c)"
| "matcher ic (Star r) s c =
     (case matcher ic r s
             (\<lambda>s'. if length s' < length s then matcher ic (Star r) s' c else None)
      of Some e \<Rightarrow> Some e | None \<Rightarrow> c s)"
| "matcher ic (LazyStar r) s c =
     (case c s of
        Some e \<Rightarrow> Some e
      | None \<Rightarrow>
          matcher ic r s
            (\<lambda>s'. if length s' < length s then matcher ic (LazyStar r) s' c else None))"
| "matcher ic (Opt r) s c =
     (case matcher ic r s (\<lambda>s'. if length s' < length s then c s' else None)
      of Some e \<Rightarrow> Some e | None \<Rightarrow> c s)"
  by pat_completeness auto
termination
  by (relation "inv_image (less_than <*lex*> less_than) (\<lambda>(ic, r, s, c). (size r, length s))")
    auto

text \<open>Shorthands for writing the patterns: \<^verbatim>\<open>r+\<close> is \<^verbatim>\<open>rr*\<close>.\<close>

definition chr :: "char \<Rightarrow> regex" where
  "chr x = Atom (Lit (of_char x))"

fun str :: "string \<Rightarrow> regex" where
  "str [] = Empty"
| "str (x # xs) = Seq (chr x) (str xs)"

fun seqs :: "regex list \<Rightarrow> regex" where
  "seqs [] = Empty"
| "seqs (r # rs) = Seq r (seqs rs)"

definition Plus :: "regex \<Rightarrow> regex" where
  "Plus r = Seq r (Star r)"

subsection \<open>RegExp objects with the global flag\<close>

text \<open>
  Every regular expression of the component carries the \<^verbatim>\<open>g\<close> flag, which makes the
  object stateful: \<^verbatim>\<open>test\<close> starts at \<^verbatim>\<open>lastIndex\<close> and leaves the end of the match there
  (or 0 on failure), and \<^verbatim>\<open>replace\<close> starts from 0 and leaves 0 behind.
\<close>

record regexp =
  source :: regex
  ignoreCase :: bool
  lastIndex :: nat

definition regexp_literal :: "regex \<Rightarrow> bool \<Rightarrow> regexp" where
  "regexp_literal r ic = \<lparr>source = r, ignoreCase = ic, lastIndex = 0\<rparr>"

definition match_at :: "regexp \<Rightarrow> jsstring \<Rightarrow> jsstring option" where
  "match_at R s = matcher (ignoreCase R) (source R) s Some"

text \<open>
  The search loop of \<^verbatim>\<open>exec\<close>: try the current position, move one code unit on after a
  failure, give up past the end. The result is the text after the first match found.
\<close>

fun exec_search :: "regexp \<Rightarrow> jsstring \<Rightarrow> jsstring option" where
  "exec_search R [] = match_at R []"
| "exec_search R (x # xs) =
     (case match_at R (x # xs) of Some rest \<Rightarrow> Some rest | None \<Rightarrow> exec_search R xs)"

definition regexp_test :: "regexp \<Rightarrow> jsstring \<Rightarrow> bool \<times> regexp" where
  "regexp_test R s =
     (if lastIndex R > length s then (False, R\<lparr>lastIndex := 0\<rparr>)
      else case exec_search R (drop (lastIndex R) s) of
             None \<Rightarrow> (False, R\<lparr>lastIndex := 0\<rparr>)
           | Some rest \<Rightarrow> (True, R\<lparr>lastIndex := length s - length rest\<rparr>))"

text \<open>
  \<^verbatim>\<open>String.prototype.replace\<close> with a global regular expression and a replacement string
  without \<^verbatim>\<open>$\<close>: every match found from left to right is replaced, the search resuming
  after the match (one code unit further on after an empty match).
\<close>

function replace_loop :: "regexp \<Rightarrow> jsstring \<Rightarrow> jsstring \<Rightarrow> jsstring" where
  "replace_loop R rep s =
     (case match_at R s of
        Some rest \<Rightarrow>
          if length rest < length s then rep @ replace_loop R rep rest
          else rep @ (case s of [] \<Rightarrow> [] | x # xs \<Rightarrow> x # replace_loop R rep xs)
      | None \<Rightarrow> (case s of [] \<Rightarrow> [] | x # xs \<Rightarrow> x # replace_loop R rep xs))"
  by pat_completeness auto
termination
  by (relation "measure (\<lambda>(R, rep, s). length s)") auto

declare replace_loop.simps [simp del]

definition regexp_replace :: "regexp \<Rightarrow> jsstring \<Rightarrow> jsstring \<Rightarrow> jsstring \<times> regexp" where
  "regexp_replace R rep s = (replace_loop R rep s, R\<lparr>lastIndex := 0\<rparr>)"

subsection \<open>The sanitizer\<close>

record threat_pattern =
  pattern :: regexp
  name :: string
  severity :: string

definition DANGEROUS_PATTERNS :: "threat_pattern list" where
  "DANGEROUS_PATTERNS =
    [\<lparr>pattern = regexp_literal
        (seqs [str ''<script'', LazyStar (Atom AnyChar), chr CHR ''>'',
               LazyStar (Atom AnyChar), str ''</script>'']) True,
      name = ''XSS Script Tag'', severity = ''critical''\<rparr>,
     \<lparr>pattern = regexp_literal (str ''javascript:'') True,
      name = ''JavaScript URI'', severity = ''critical''\<rparr>,
     \<lparr>pattern = regexp_literal
        (seqs [str ''on'', Plus (Atom WordChar), Star (Atom Space), chr CHR ''='']) True,
      name = ''Event Handler'', severity = ''high''\<rparr>,
     \<lparr>pattern = regexp_literal
        (seqs [chr CHR 0x27, Star (Atom Space), Alt (str ''or'') (str ''and''),
               Star (Atom Space), Opt (chr CHR 0x27), Star (Atom Digit), Opt (chr CHR 0x27),
               Star (Atom Space), chr CHR ''='', Star (Atom Space),
               Opt (chr CHR 0x27), Star (Atom Digit), Opt (chr CHR 0x27)]) True,
      name = ''SQL Injection'', severity = ''critical''\<rparr>,
     \<lparr>pattern = regexp_literal
        (seqs [chr CHR '';'', Star (Atom Space),
               Alt (str ''rm'') (Alt (str ''cat'') (Alt (str ''ls'')
                 (Alt (str ''wget'') (str ''curl''))))]) True,
      name = ''Command Injection'', severity = ''critical''\<rparr>,
     \<lparr>pattern = regexp_literal (str ''../'') False,
      name = ''Path Traversal'', severity = ''high''\<rparr>,
     \<lparr>pattern = regexp_literal (str ''<iframe'') True,
      name = ''Iframe Injection'', severity = ''high''\<rparr>,
     \<lparr>pattern = regexp_literal (seqs [str ''<img'', Star (Atom Dot), str ''onerror'']) True,
      name = ''Image XSS'', severity = ''high''\<rparr>]"

definition BLOCKED :: jsstring where
  "BLOCKED = js ''[BLOCKED]''"

text \<open>
  The \<^verbatim>\<open>for ... of\<close> loop of \<^verbatim>\<open>sanitizeInput\<close>. \<open>input\<close> stays fixed, \<open>sanitized\<close> is the
  working copy and \<open>threats\<close> the labels pushed so far. The pattern objects are returned
  with the \<^verbatim>\<open>lastIndex\<close> the loop leaves in them, since the list is module state.
\<close>

fun scan_patterns ::
  "threat_pattern list \<Rightarrow> jsstring \<Rightarrow> jsstring \<Rightarrow> string list
     \<Rightarrow> jsstring \<times> string list \<times> threat_pattern list" where
  "scan_patterns [] input sanitized threats = (sanitized, threats, [])"
| "scan_patterns (p # ps) input sanitized threats =
     (let (hit, R1) = regexp_test (pattern p) input;
          threats1 = (if hit then threats @ [name p] else threats);
          (sanitized1, R2) = regexp_replace R1 BLOCKED sanitized;
          (sanitized2, threats2, ps') = scan_patterns ps input sanitized1 threats1
      in (sanitized2, threats2, p\<lparr>pattern := R2\<rparr> # ps'))"

record sanitize_result =
  sanitized :: jsstring
  threats :: "string list"

text \<open>
  The entity encoding: four global replacements of one character each, in the source's
  order. Their regular expressions are literals evaluated afresh on each call.
\<close>

definition replace_char :: "char \<Rightarrow> string \<Rightarrow> jsstring \<Rightarrow> jsstring" where
  "replace_char x rep s = fst (regexp_replace (regexp_literal (chr x) False) (js rep) s)"

definition html_encode :: "jsstring \<Rightarrow> jsstring" where
  "html_encode s =
     replace_char CHR 0x27 ''&#x27;''
       (replace_char CHR 0x22 ''&quot;''
         (replace_char CHR ''>'' ''&gt;''
           (replace_char CHR ''<'' ''&lt;'' s)))"

definition sanitizeInput ::
  "threat_pattern list \<Rightarrow> jsstring \<Rightarrow> sanitize_result \<times> threat_pattern list" where
  "sanitizeInput pats input =
     (let (sanitized1, threats1, pats') = scan_patterns pats input input []
      in (\<lparr>sanitized = html_encode sanitized1, threats = threats1\<rparr>, pats'))"

section \<open>Notions used in the proofs about the sanitizer\<close>

subsection \<open>What a pattern can match\<close>

text \<open>
  The set of texts a pattern can match, read off its syntax. The matcher is shown below
  to succeed at a position exactly when some text of this set starts there.
\<close>

inductive_set kleene :: "'a list set \<Rightarrow> 'a list set" for A :: "'a list set" where
  kleene_Nil: "[] \<in> kleene A"
| kleene_app: "u \<in> A \<Longrightarrow> v \<in> kleene A \<Longrightarrow> u @ v \<in> kleene A"

fun lang :: "bool \<Rightarrow> regex \<Rightarrow> jsstring set" where
  "lang ic Empty = {[]}"
| "lang ic (Atom a) = {[x] | x. atom_matches ic a x}"
| "lang ic (Seq r1 r2) = {u @ v | u v. u \<in> lang ic r1 \<and> v \<in> lang ic r2}"
| "lang ic (Alt r1 r2) = lang ic r1 \<union> lang ic r2"
| "lang ic (Star r) = kleene (lang ic r)"
| "lang ic (LazyStar r) = kleene (lang ic r)"
| "lang ic (Opt r) = insert [] (lang ic r)"

fun nullable :: "regex \<Rightarrow> bool" where
  "nullable Empty = True"
| "nullable (Atom a) = False"
| "nullable (Seq r1 r2) = (nullable r1 \<and> nullable r2)"
| "nullable (Alt r1 r2) = (nullable r1 \<or> nullable r2)"
| "nullable (Star r) = True"
| "nullable (LazyStar r) = True"
| "nullable (Opt r) = True"

fun atoms :: "regex \<Rightarrow> atom list" where
  "atoms Empty = []"
| "atoms (Atom a) = [a]"
| "atoms (Seq r1 r2) = atoms r1 @ atoms r2"
| "atoms (Alt r1 r2) = atoms r1 @ atoms r2"
| "atoms (Star r) = atoms r"
| "atoms (LazyStar r) = atoms r"
| "atoms (Opt r) = atoms r"

text \<open>
  \<open>must_contain d r\<close>: every text matched by \<open>r\<close> goes through the literal \<open>d\<close>.
  \<open>no_factor L s\<close>: no contiguous part of \<open>s\<close> belongs to \<open>L\<close>.
\<close>

fun must_contain :: "code_unit \<Rightarrow> regex \<Rightarrow> bool" where
  "must_contain d Empty = False"
| "must_contain d (Atom a) = (a = Lit d)"
| "must_contain d (Seq r1 r2) = (must_contain d r1 \<or> must_contain d r2)"
| "must_contain d (Alt r1 r2) = (must_contain d r1 \<and> must_contain d r2)"
| "must_contain d (Star r) = False"
| "must_contain d (LazyStar r) = False"
| "must_contain d (Opt r) = False"

definition no_factor :: "'a list set \<Rightarrow> 'a list \<Rightarrow> bool" where
  "no_factor L s \<longleftrightarrow> (\<forall>a u b. s = a @ u @ b \<longrightarrow> u \<notin> L)"

subsection \<open>Patterns that the placeholder and the entities cannot complete\<close>

text \<open>
  A pattern is \<open>inert\<close> when it cannot match the empty text, none of its atoms matches
  one of the characters \<^verbatim>\<open>[ ] & ;\<close> that delimit the placeholder and the entities, and
  it finds nothing inside them. A text is \<open>quiet\<close> when it holds none of the four encoded
  characters and no inert pattern of the list matches in it.
\<close>

definition inert :: "regexp \<Rightarrow> bool" where
  "inert R \<longleftrightarrow>
     \<not> nullable (source R) \<and>
     list_all (\<lambda>a. list_all (\<lambda>d. \<not> atom_matches (ignoreCase R) a d) (js ''[]&;''))
       (atoms (source R)) \<and>
     list_all (\<lambda>m. exec_search R m = None)
       [js ''BLOCKED'', js ''lt'', js ''gt'', js ''quot'', js ''#x27'']"

definition quiet :: "jsstring \<Rightarrow> bool" where
  "quiet w \<longleftrightarrow>
     set w \<inter> set (js [CHR ''<'', CHR ''>'', CHR 0x22, CHR 0x27]) = {} \<and>
     list_all (\<lambda>p. inert (pattern p) \<longrightarrow> exec_search (pattern p) w = None) DANGEROUS_PATTERNS"

text \<open>
  One round of the loop on the working copy, and the same round restricted to the
  Command Injection pattern.
\<close>

abbreviation (input) step :: "jsstring \<Rightarrow> threat_pattern \<Rightarrow> jsstring" where
  "step w p \<equiv> replace_loop (pattern p) BLOCKED w"

definition step_ci :: "jsstring \<Rightarrow> threat_pattern \<Rightarrow> jsstring" where
  "step_ci w p = (if name p = ''Command Injection'' then step w p else w)"

subsection \<open>A declarative reading of the rounds of the loop\<close>

text \<open>
  What the sentences about matching and replacing say, written without the search loop
  and the replacement loop. A pattern matches at the start of a text when a prefix of the
  text belongs to its language, and somewhere in a text when it matches at the start of
  some suffix.
\<close>

definition matches_at_start :: "regexp \<Rightarrow> jsstring \<Rightarrow> bool" where
  "matches_at_start R s \<longleftrightarrow> (\<exists>u v. s = u @ v \<and> u \<in> lang (ignoreCase R) (source R))"

definition matches_somewhere :: "regexp \<Rightarrow> jsstring \<Rightarrow> bool" where
  "matches_somewhere R s \<longleftrightarrow> (\<exists>a t. s = a @ t \<and> matches_at_start R t)"

text \<open>
  \<open>replaces_all R rep s out\<close>: \<open>out\<close> is \<open>s\<close> with all matches of \<open>R\<close> replaced by \<open>rep\<close>,
  from left to right. A character where no match starts is copied; where a match starts,
  the text \<open>m\<close> that the pattern matches there is replaced and the reading resumes behind it.
\<close>

inductive replaces_all :: "regexp \<Rightarrow> jsstring \<Rightarrow> jsstring \<Rightarrow> jsstring \<Rightarrow> bool"
  for R :: regexp and rep :: jsstring where
  ra_end: "\<not> matches_at_start R [] \<Longrightarrow> replaces_all R rep [] []"
| ra_keep: "\<not> matches_at_start R (x # xs) \<Longrightarrow> replaces_all R rep xs out \<Longrightarrow>
     replaces_all R rep (x # xs) (x # out)"
| ra_replace: "m \<noteq> [] \<Longrightarrow> m \<in> lang (ignoreCase R) (source R) \<Longrightarrow>
     match_at R (m @ rest) = Some rest \<Longrightarrow> replaces_all R rep rest out \<Longrightarrow>
     replaces_all R rep (m @ rest) (rep @ out)"

text \<open>The entity encoding, character by character.\<close>

definition entity :: "code_unit \<Rightarrow> jsstring" where
  "entity c =
     (if c = of_char CHR ''<'' then js ''&lt;''
      else if c = of_char CHR ''>'' then js ''&gt;''
      else if c = of_char CHR 0x22 then js ''&quot;''
      else if c = of_char CHR 0x27 then js ''&#x27;''
      else [c])"

section \<open>Rate limiter: invariants and countdown\<close>

text \<open>
  What holds in every state the component can reach. A blocked state has the full count
  and a running countdown; an unblocked one is below the limit with the countdown at 0.
\<close>

lemma reachable_invariant:
  "reachable s \<Longrightarrow>
     (blocked s \<longrightarrow> requests s = MAX_REQUESTS \<and> 1 \<le> timeToReset s \<and> timeToReset s \<le> RESET_TIME) \<and>
     (\<not> blocked s \<longrightarrow> 0 \<le> requests s \<and> requests s < MAX_REQUESTS \<and> timeToReset s = 0)"
proof (induction rule: reachable.induct)
  case reach_init
  show ?case by (simp add: initial_state_def MAX_REQUESTS_def)
next
  case (reach_request s)
  then show ?case
    by (auto simp: handleRequest_def Let_def MAX_REQUESTS_def RESET_TIME_def)
next
  case (reach_tick s)
  then show ?case
    by (auto simp: tick_def MAX_REQUESTS_def)
qed

lemma handleRequest_funpow_unblocked:
  "int n < MAX_REQUESTS \<Longrightarrow>
     (handleRequest ^^ n) initial_state = \<lparr>requests = int n, blocked = False, timeToReset = 0\<rparr>"
proof (induction n)
  case 0
  show ?case by (simp add: initial_state_def)
next
  case (Suc n)
  then show ?case by (simp add: handleRequest_def Let_def)
qed

lemma handleRequest_funpow_MAX:
  "(handleRequest ^^ nat MAX_REQUESTS) initial_state =
     \<lparr>requests = MAX_REQUESTS, blocked = True, timeToReset = RESET_TIME\<rparr>"
proof -
  have n: "nat MAX_REQUESTS = Suc 9"
    by (simp add: MAX_REQUESTS_def)
  have nine: "(handleRequest ^^ 9) initial_state
      = \<lparr>requests = 9, blocked = False, timeToReset = 0\<rparr>"
    using handleRequest_funpow_unblocked [of 9] by (simp add: MAX_REQUESTS_def)
  have "(handleRequest ^^ Suc 9) initial_state
      = handleRequest \<lparr>requests = 9, blocked = False, timeToReset = 0\<rparr>"
    by (simp only: funpow.simps o_apply nine)
  also have "\<dots> = \<lparr>requests = MAX_REQUESTS, blocked = True, timeToReset = RESET_TIME\<rparr>"
    by (simp add: handleRequest_def Let_def MAX_REQUESTS_def)
  finally show ?thesis
    by (simp only: n)
qed

lemma tick_funpow_countdown:
  "blocked s \<Longrightarrow> int n < timeToReset s \<Longrightarrow>
     (tick ^^ n) s = s\<lparr>timeToReset := timeToReset s - int n\<rparr>"
proof (induction n)
  case 0
  show ?case by simp
next
  case (Suc n)
  then show ?case by (simp add: tick_def)
qed

lemma tick_unblocked: "\<not> blocked s \<Longrightarrow> (tick ^^ n) s = s"
  by (induction n) (simp_all add: tick_def)

lemma tick_funpow_reset:
  assumes "blocked s" and "1 \<le> timeToReset s" and "timeToReset s \<le> int n"
  shows "(tick ^^ n) s = s\<lparr>blocked := False, requests := 0, timeToReset := 0\<rparr>"
proof -
  define k where "k = nat (timeToReset s) - 1"
  define m where "m = n - Suc k"
  have n: "n = m + Suc k" and k: "int k = timeToReset s - 1"
    using assms by (simp_all add: k_def m_def)
  have "(tick ^^ k) s = s\<lparr>timeToReset := 1\<rparr>"
    using tick_funpow_countdown [of s k] assms k by simp
  then have "(tick ^^ Suc k) s = s\<lparr>blocked := False, requests := 0, timeToReset := 0\<rparr>"
    using assms by (simp add: tick_def)
  then show ?thesis
    unfolding n funpow_add by (simp add: tick_unblocked)
qed

lemma reachable_funpow_request: "reachable s \<Longrightarrow> reachable ((handleRequest ^^ n) s)"
  by (induction n) (simp_all add: reach_request)

lemma reachable_funpow_tick: "reachable s \<Longrightarrow> reachable ((tick ^^ n) s)"
  by (induction n) (simp_all add: reach_tick)

lemma reachable_full: "reachable \<lparr>requests = 10, blocked = True, timeToReset = 30\<rparr>"
  using reachable_funpow_request [OF reach_init, of "nat MAX_REQUESTS"]
  by (simp add: handleRequest_funpow_MAX) (simp add: MAX_REQUESTS_def RESET_TIME_def)

lemma reachable_last_second: "reachable \<lparr>requests = 10, blocked = True, timeToReset = 1\<rparr>"
  using reachable_funpow_tick [OF reachable_full, of 29]
  by (simp add: tick_funpow_countdown)

text \<open>
  Claim C2. In every reachable state \<open>blocked\<close> holds exactly when \<open>timeToReset\<close> is
  positive. For either operation taken from a reachable state, \<open>blocked\<close> goes from true
  to false exactly when \<open>requests\<close> goes from a non-zero value to 0.
\<close>

theorem blocked_iff_countdown_running:
  assumes "reachable s"
  shows "(blocked s \<longleftrightarrow> timeToReset s > 0) \<and>
         (\<forall>s'. s' = handleRequest s \<or> s' = tick s \<longrightarrow>
            ((blocked s \<and> \<not> blocked s') \<longleftrightarrow> (requests s \<noteq> 0 \<and> requests s' = 0)))"
proof -
  note inv = reachable_invariant [OF assms]
  have a: "blocked s \<longleftrightarrow> timeToReset s > 0"
    using inv by auto
  have b: "(blocked s \<and> \<not> blocked (handleRequest s)) \<longleftrightarrow>
           (requests s \<noteq> 0 \<and> requests (handleRequest s) = 0)"
    using inv by (auto simp: handleRequest_def Let_def MAX_REQUESTS_def)
  have c: "(blocked s \<and> \<not> blocked (tick s)) \<longleftrightarrow> (requests s \<noteq> 0 \<and> requests (tick s) = 0)"
    using inv by (auto simp: tick_def MAX_REQUESTS_def)
  from a b c show ?thesis by blast
qed

theorem blocked_iff_countdown_running_witness:
  "reachable \<lparr>requests = 10, blocked = True, timeToReset = 1\<rparr> \<and>
   timeToReset \<lparr>requests = 10, blocked = True, timeToReset = 1\<rparr> > 0 \<and>
   tick \<lparr>requests = 10, blocked = True, timeToReset = 1\<rparr>
     = \<lparr>requests = 0, blocked = False, timeToReset = 0\<rparr>"
  using blocked_iff_countdown_running [OF reachable_last_second] reachable_last_second
  by (simp add: tick_def)

text \<open>
  Claim C10. In every reachable state \<open>requests\<close> lies between 0 and \<open>MAX_REQUESTS\<close> and
  \<open>timeToReset\<close> between 0 and \<open>RESET_TIME\<close>; a state with the full count is blocked, which
  is why the count cannot grow further.
\<close>

theorem reachable_bounds:
  assumes "reachable s"
  shows "0 \<le> requests s \<and> requests s \<le> MAX_REQUESTS \<and>
         0 \<le> timeToReset s \<and> timeToReset s \<le> RESET_TIME \<and>
         (requests s = MAX_REQUESTS \<longrightarrow> blocked s)"
  using reachable_invariant [OF assms]
  by (cases "blocked s") (auto simp: MAX_REQUESTS_def RESET_TIME_def)

theorem reachable_bounds_witness:
  "reachable \<lparr>requests = 10, blocked = True, timeToReset = 30\<rparr> \<and>
   requests \<lparr>requests = 10, blocked = True, timeToReset = 30\<rparr> \<le> MAX_REQUESTS \<and>
   timeToReset \<lparr>requests = 10, blocked = True, timeToReset = 30\<rparr> \<le> RESET_TIME"
  using reachable_bounds [OF reachable_full] reachable_full by simp

text \<open>
  Claim C4. From the initial state, \<open>MAX_REQUESTS\<close> calls of \<open>handleRequest\<close> with no tick
  in between leave the state blocked with \<open>timeToReset = RESET_TIME\<close>; after fewer calls
  it is not blocked and the count is the number of calls; a call in an unblocked state
  adds exactly 1 to the count.
\<close>

theorem blocked_after_MAX_REQUESTS_calls:
  "(let s = (handleRequest ^^ nat MAX_REQUESTS) initial_state
    in blocked s \<and> timeToReset s = RESET_TIME \<and> requests s = MAX_REQUESTS) \<and>
   (\<forall>n. int n < MAX_REQUESTS \<longrightarrow>
      \<not> blocked ((handleRequest ^^ n) initial_state) \<and>
      requests ((handleRequest ^^ n) initial_state) = int n) \<and>
   (\<forall>s. \<not> blocked s \<longrightarrow> requests (handleRequest s) = requests s + 1)"
proof -
  have a: "let s = (handleRequest ^^ nat MAX_REQUESTS) initial_state
           in blocked s \<and> timeToReset s = RESET_TIME \<and> requests s = MAX_REQUESTS"
    by (simp add: handleRequest_funpow_MAX)
  have b: "\<forall>n. int n < MAX_REQUESTS \<longrightarrow>
      \<not> blocked ((handleRequest ^^ n) initial_state) \<and>
      requests ((handleRequest ^^ n) initial_state) = int n"
    by (simp add: handleRequest_funpow_unblocked)
  have c: "\<forall>s. \<not> blocked s \<longrightarrow> requests (handleRequest s) = requests s + 1"
    by (simp add: handleRequest_def Let_def)
  from a b c show ?thesis by blast
qed

theorem blocked_after_MAX_REQUESTS_calls_witness:
  "int 9 < MAX_REQUESTS \<and>
   \<not> blocked ((handleRequest ^^ 9) initial_state) \<and>
   requests ((handleRequest ^^ 9) initial_state) = 9 \<and>
   \<not> blocked initial_state \<and> requests (handleRequest initial_state) = 1 \<and>
   blocked ((handleRequest ^^ 10) initial_state) \<and>
   timeToReset ((handleRequest ^^ 10) initial_state) = 30"
proof -
  have m: "int 9 < MAX_REQUESTS" "nat MAX_REQUESTS = 10"
    by (simp_all add: MAX_REQUESTS_def)
  have i: "\<not> blocked initial_state" "requests initial_state = 0"
    by (simp_all add: initial_state_def)
  from blocked_after_MAX_REQUESTS_calls m i show ?thesis
    by (auto simp: Let_def RESET_TIME_def)
qed

text \<open>
  Claim C5. In a reachable blocked state a tick lowers \<open>timeToReset\<close> by 1; when that
  reaches 0 the state is unblocked and the count is 0, otherwise it stays blocked with the
  count untouched. After \<open>RESET_TIME\<close> consecutive ticks the state is unblocked with count
  0, and a countdown started at \<open>RESET_TIME\<close> is still blocked after any smaller number
  of ticks.
\<close>

theorem tick_counts_down_and_resets:
  assumes "reachable s" and "blocked s"
  shows "timeToReset (tick s) = timeToReset s - 1 \<and>
         (timeToReset (tick s) = 0 \<longrightarrow> \<not> blocked (tick s) \<and> requests (tick s) = 0) \<and>
         (timeToReset (tick s) > 0 \<longrightarrow> blocked (tick s) \<and> requests (tick s) = requests s) \<and>
         \<not> blocked ((tick ^^ nat RESET_TIME) s) \<and> requests ((tick ^^ nat RESET_TIME) s) = 0 \<and>
         (timeToReset s = RESET_TIME \<longrightarrow> (\<forall>n. int n < RESET_TIME \<longrightarrow> blocked ((tick ^^ n) s)))"
proof -
  from reachable_invariant [OF assms(1)] assms(2)
  have t: "1 \<le> timeToReset s" "timeToReset s \<le> RESET_TIME" by auto
  have a: "timeToReset (tick s) = timeToReset s - 1"
    using t assms(2) by (auto simp: tick_def)
  have b: "timeToReset (tick s) = 0 \<longrightarrow> \<not> blocked (tick s) \<and> requests (tick s) = 0"
    using t assms(2) by (auto simp: tick_def)
  have c: "timeToReset (tick s) > 0 \<longrightarrow> blocked (tick s) \<and> requests (tick s) = requests s"
    using t assms(2) by (auto simp: tick_def)
  have "(tick ^^ nat RESET_TIME) s = s\<lparr>blocked := False, requests := 0, timeToReset := 0\<rparr>"
    using t assms(2) by (intro tick_funpow_reset) (simp_all add: RESET_TIME_def)
  then have d: "\<not> blocked ((tick ^^ nat RESET_TIME) s) \<and> requests ((tick ^^ nat RESET_TIME) s) = 0"
    by simp
  have e: "timeToReset s = RESET_TIME \<longrightarrow> (\<forall>n. int n < RESET_TIME \<longrightarrow> blocked ((tick ^^ n) s))"
    using assms(2) by (simp add: tick_funpow_countdown)
  from a b c d e show ?thesis by blast
qed

theorem tick_counts_down_and_resets_witness:
  "reachable \<lparr>requests = 10, blocked = True, timeToReset = 30\<rparr> \<and>
   blocked \<lparr>requests = 10, blocked = True, timeToReset = 30\<rparr> \<and>
   timeToReset (tick \<lparr>requests = 10, blocked = True, timeToReset = 30\<rparr>) = 29 \<and>
   \<not> blocked ((tick ^^ 30) \<lparr>requests = 10, blocked = True, timeToReset = 30\<rparr>) \<and>
   requests ((tick ^^ 30) \<lparr>requests = 10, blocked = True, timeToReset = 30\<rparr>) = 0"
proof -
  have b: "blocked \<lparr>requests = 10, blocked = True, timeToReset = 30\<rparr>" by simp
  have n: "nat RESET_TIME = 30" by (simp add: RESET_TIME_def)
  from tick_counts_down_and_resets [OF reachable_full b] reachable_full n show ?thesis
    by simp
qed

text \<open>
  Claim C6. In a blocked state \<open>handleRequest\<close> returns the state as it is: \<open>requests\<close>,
  \<open>blocked\<close> and \<open>timeToReset\<close> keep their values.
\<close>

theorem handleRequest_blocked_unchanged:
  "blocked s \<Longrightarrow>
     handleRequest s = s \<and> requests (handleRequest s) = requests s \<and>
     blocked (handleRequest s) = blocked s \<and> timeToReset (handleRequest s) = timeToReset s"
  by (simp add: handleRequest_def)

theorem handleRequest_blocked_unchanged_witness:
  "blocked \<lparr>requests = 10, blocked = True, timeToReset = 30\<rparr> \<and>
   handleRequest \<lparr>requests = 10, blocked = True, timeToReset = 30\<rparr>
     = \<lparr>requests = 10, blocked = True, timeToReset = 30\<rparr>"
  using handleRequest_blocked_unchanged [of "\<lparr>requests = 10, blocked = True, timeToReset = 30\<rparr>"]
  by simp

section \<open>Sanitizer: the loop as a fold\<close>

text \<open>
  \<^verbatim>\<open>lastIndex\<close> has no influence on a match attempt from a given position, and one
  unfolding of the replacement loop per case.
\<close>

lemma match_at_lastIndex [simp]: "match_at (R\<lparr>lastIndex := n\<rparr>) s = match_at R s"
  by (simp add: match_at_def)

lemma exec_search_lastIndex [simp]: "exec_search (R\<lparr>lastIndex := n\<rparr>) s = exec_search R s"
  by (induction s) (simp_all split: option.splits)

lemma replace_loop_Nil_None: "match_at R [] = None \<Longrightarrow> replace_loop R rep [] = []"
  by (subst replace_loop.simps) simp

lemma replace_loop_Cons_None:
  "match_at R (x # xs) = None \<Longrightarrow> replace_loop R rep (x # xs) = x # replace_loop R rep xs"
  by (subst replace_loop.simps) simp

lemma replace_loop_Some:
  "match_at R s = Some rest \<Longrightarrow> length rest < length s \<Longrightarrow>
     replace_loop R rep s = rep @ replace_loop R rep rest"
  by (subst replace_loop.simps) simp

lemma replace_loop_Some_empty:
  "match_at R s = Some rest \<Longrightarrow> \<not> length rest < length s \<Longrightarrow>
     replace_loop R rep s = rep @ (case s of [] \<Rightarrow> [] | x # xs \<Rightarrow> x # replace_loop R rep xs)"
  by (subst replace_loop.simps) simp

lemma replace_loop_lastIndex [simp]:
  "replace_loop (R\<lparr>lastIndex := n\<rparr>) rep s = replace_loop R rep s"
proof (induction s rule: length_induct)
  case (1 s)
  show ?case
  proof (cases "match_at R s")
    case None
    then show ?thesis
      using 1 by (cases s) (simp_all add: replace_loop_Nil_None replace_loop_Cons_None)
  next
    case (Some rest)
    show ?thesis
    proof (cases "length rest < length s")
      case True
      with Some 1 show ?thesis
        by (simp add: replace_loop_Some)
    next
      case False
      with Some 1 show ?thesis
        by (cases s) (simp_all add: replace_loop_Some_empty)
    qed
  qed
qed

text \<open>
  On a pattern object with \<^verbatim>\<open>lastIndex = 0\<close>, \<^verbatim>\<open>test\<close> reports whether the pattern matches
  anywhere in the text, and the \<^verbatim>\<open>replace\<close> that follows puts \<^verbatim>\<open>lastIndex\<close> back to 0.
  So each round of the loop, and each call of \<^verbatim>\<open>sanitizeInput\<close>, finds the objects as
  they were created.
\<close>

lemma regexp_test_fresh:
  "lastIndex R = 0 \<Longrightarrow> fst (regexp_test R s) = (exec_search R s \<noteq> None)"
  by (simp add: regexp_test_def split: option.splits)

lemma regexp_test_then_replace:
  "lastIndex R = 0 \<Longrightarrow>
     regexp_replace (snd (regexp_test R s)) rep w = (replace_loop R rep w, R)"
  by (simp add: regexp_test_def regexp_replace_def split: option.splits)

lemma scan_patterns_fold:
  "\<forall>p \<in> set ps. lastIndex (pattern p) = 0 \<Longrightarrow>
     scan_patterns ps input w t =
       (foldl (\<lambda>w p. replace_loop (pattern p) BLOCKED w) w ps,
        t @ map name (filter (\<lambda>p. exec_search (pattern p) input \<noteq> None) ps),
        ps)"
proof (induction ps arbitrary: w t)
  case Nil
  show ?case by simp
next
  case (Cons p ps)
  then have z: "lastIndex (pattern p) = 0" and rest: "\<forall>p \<in> set ps. lastIndex (pattern p) = 0"
    by simp_all
  obtain hit R1 where tst: "regexp_test (pattern p) input = (hit, R1)"
    by (cases "regexp_test (pattern p) input")
  have hit: "hit = (exec_search (pattern p) input \<noteq> None)"
    using regexp_test_fresh [OF z, of input] tst by simp
  have rep: "regexp_replace R1 BLOCKED w = (replace_loop (pattern p) BLOCKED w, pattern p)"
    using regexp_test_then_replace [OF z, of input BLOCKED w] tst by simp
  show ?case
    by (simp add: tst rep hit Cons.IH [OF rest])
qed

lemma DANGEROUS_PATTERNS_fresh: "\<forall>p \<in> set DANGEROUS_PATTERNS. lastIndex (pattern p) = 0"
  by (simp add: DANGEROUS_PATTERNS_def regexp_literal_def)

lemma sanitizeInput_fold:
  "sanitizeInput DANGEROUS_PATTERNS input =
     (\<lparr>sanitized = html_encode
          (foldl (\<lambda>w p. replace_loop (pattern p) BLOCKED w) input DANGEROUS_PATTERNS),
       threats = map name (filter (\<lambda>p. exec_search (pattern p) input \<noteq> None) DANGEROUS_PATTERNS)\<rparr>,
      DANGEROUS_PATTERNS)"
  by (simp add: sanitizeInput_def scan_patterns_fold [OF DANGEROUS_PATTERNS_fresh])

section \<open>Sanitizer: entity encoding\<close>

text \<open>Each of the four replacements rewrites the text character by character.\<close>

lemma match_at_chr_Nil: "match_at (regexp_literal (chr x) ic) [] = None"
  by (simp add: match_at_def regexp_literal_def chr_def)

lemma match_at_chr_Cons:
  "match_at (regexp_literal (chr x) False) (c # cs) = (if of_char x = c then Some cs else None)"
  by (simp add: match_at_def regexp_literal_def chr_def canonicalize_def)

lemma replace_char_concat:
  "replace_char x rep s = concat (map (\<lambda>c. if c = of_char x then js rep else [c]) s)"
proof -
  have "replace_loop (regexp_literal (chr x) False) r s
      = concat (map (\<lambda>c. if c = of_char x then r else [c]) s)" for r
  proof (induction s)
    case Nil
    show ?case by (simp add: replace_loop_Nil_None match_at_chr_Nil)
  next
    case (Cons c cs)
    show ?case
    proof (cases "c = of_char x")
      case True
      then have "match_at (regexp_literal (chr x) False) (c # cs) = Some cs"
        by (simp add: match_at_chr_Cons)
      then show ?thesis
        using Cons True by (simp add: replace_loop_Some)
    next
      case False
      then have "match_at (regexp_literal (chr x) False) (c # cs) = None"
        by (auto simp: match_at_chr_Cons)
      then show ?thesis
        using Cons False by (simp add: replace_loop_Cons_None)
    qed
  qed
  then show ?thesis
    by (simp add: replace_char_def regexp_replace_def)
qed

lemma set_replace_char:
  "set (replace_char x rep s) \<subseteq> (set s - {of_char x}) \<union> set (js rep)"
  by (auto simp: replace_char_concat split: if_splits)

lemma js_lt: "js ''&lt;'' = [38, 108, 116, 59]"
  and js_gt: "js ''&gt;'' = [38, 103, 116, 59]"
  and js_quot: "js ''&quot;'' = [38, 113, 117, 111, 116, 59]"
  and js_apos: "js ''&#x27;'' = [38, 35, 120, 50, 55, 59]"
  by (simp_all add: js_def)

lemma html_encode_chars:
  "set (html_encode s) \<inter> {60, 62, 34, 39} = {}"
proof -
  let ?s1 = "replace_char CHR ''<'' ''&lt;'' s"
  let ?s2 = "replace_char CHR ''>'' ''&gt;'' ?s1"
  let ?s3 = "replace_char CHR 0x22 ''&quot;'' ?s2"
  let ?s4 = "replace_char CHR 0x27 ''&#x27;'' ?s3"
  have 1: "60 \<notin> set ?s1"
    using set_replace_char [of "CHR ''<''" "''&lt;''" s] by (auto simp: js_lt)
  have 2: "60 \<notin> set ?s2" "62 \<notin> set ?s2"
    using set_replace_char [of "CHR ''>''" "''&gt;''" ?s1] 1 by (auto simp: js_gt)
  have 3: "60 \<notin> set ?s3" "62 \<notin> set ?s3" "34 \<notin> set ?s3"
    using set_replace_char [of "CHR 0x22" "''&quot;''" ?s2] 2 by (auto simp: js_quot)
  have 4: "60 \<notin> set ?s4" "62 \<notin> set ?s4" "34 \<notin> set ?s4" "39 \<notin> set ?s4"
    using set_replace_char [of "CHR 0x27" "''&#x27;''" ?s3] 3 by (auto simp: js_apos)
  from 4 show ?thesis
    by (simp add: html_encode_def)
qed

section \<open>Sanitizer: the matcher against the declarative reading\<close>

lemma kleene_nonempty_split:
  "w \<in> kleene A \<Longrightarrow> w \<noteq> [] \<Longrightarrow> \<exists>u v. w = u @ v \<and> u \<noteq> [] \<and> u \<in> A \<and> v \<in> kleene A"
proof (induction rule: kleene.induct)
  case kleene_Nil
  then show ?case by simp
next
  case (kleene_app u v)
  show ?case
  proof (cases "u = []")
    case True
    with kleene_app show ?thesis by simp
  next
    case False
    with kleene_app show ?thesis by blast
  qed
qed

text \<open>
  Soundness: a successful match consumed a text of the pattern's language and handed the
  rest to the continuation.
\<close>

lemma matcher_sound:
  "matcher ic r s c = Some e \<Longrightarrow> \<exists>u v. s = u @ v \<and> u \<in> lang ic r \<and> c v = Some e"
proof (induction ic r s c arbitrary: e rule: matcher.induct)
  case (1 ic s c)
  then show ?case by simp
next
  case (2 ic a s c)
  show ?case
  proof (cases s)
    case Nil
    with "2.prems" show ?thesis by simp
  next
    case (Cons x xs)
    with "2.prems" have "atom_matches ic a x" and "c xs = Some e"
      by (auto split: if_splits)
    with Cons have "s = [x] @ xs \<and> [x] \<in> lang ic (Atom a) \<and> c xs = Some e"
      by simp
    then show ?thesis by blast
  qed
next
  case (3 ic r1 r2 s c)
  from "3.prems" have "matcher ic r1 s (\<lambda>s'. matcher ic r2 s' c) = Some e" by simp
  from "3.IH"(2) [OF this] obtain u v where
    s: "s = u @ v" and u: "u \<in> lang ic r1" and m: "matcher ic r2 v c = Some e" by blast
  from "3.IH"(1) [OF m] obtain u' v' where
    "v = u' @ v'" "u' \<in> lang ic r2" "c v' = Some e" by blast
  with s u have "s = (u @ u') @ v' \<and> u @ u' \<in> lang ic (Seq r1 r2) \<and> c v' = Some e"
    by auto
  then show ?case by blast
next
  case (4 ic r1 r2 s c)
  show ?case
  proof (cases "matcher ic r1 s c")
    case None
    with "4.prems" have "matcher ic r2 s c = Some e" by simp
    from "4.IH"(2) [OF None this] show ?thesis by auto
  next
    case (Some e')
    with "4.prems" have "matcher ic r1 s c = Some e" by simp
    from "4.IH"(1) [OF this] show ?thesis by auto
  qed
next
  case (5 ic r s c)
  let ?k = "\<lambda>s'. if length s' < length s then matcher ic (Star r) s' c else None"
  show ?case
  proof (cases "matcher ic r s ?k")
    case None
    with "5.prems" have "c s = Some e" by simp
    then have "s = [] @ s \<and> [] \<in> lang ic (Star r) \<and> c s = Some e"
      by (simp add: kleene_Nil)
    then show ?thesis by blast
  next
    case (Some e')
    with "5.prems" have m: "matcher ic r s ?k = Some e" by simp
    from "5.IH"(2) [OF m] obtain u v where
      s: "s = u @ v" and u: "u \<in> lang ic r" and k: "?k v = Some e" by blast
    from k have len: "length v < length s" and m2: "matcher ic (Star r) v c = Some e"
      by (auto split: if_splits)
    from "5.IH"(1) [OF len m2] obtain u' v' where
      "v = u' @ v'" "u' \<in> lang ic (Star r)" "c v' = Some e" by blast
    with s u have "s = (u @ u') @ v' \<and> u @ u' \<in> lang ic (Star r) \<and> c v' = Some e"
      by (auto intro: kleene_app)
    then show ?thesis by blast
  qed
next
  case (6 ic r s c)
  let ?k = "\<lambda>s'. if length s' < length s then matcher ic (LazyStar r) s' c else None"
  show ?case
  proof (cases "c s")
    case (Some e')
    with "6.prems" have "c s = Some e" by simp
    then have "s = [] @ s \<and> [] \<in> lang ic (LazyStar r) \<and> c s = Some e"
      by (simp add: kleene_Nil)
    then show ?thesis by blast
  next
    case None
    with "6.prems" have m: "matcher ic r s ?k = Some e" by simp
    from "6.IH"(2) [OF None m] obtain u v where
      s: "s = u @ v" and u: "u \<in> lang ic r" and k: "?k v = Some e" by blast
    from k have len: "length v < length s" and m2: "matcher ic (LazyStar r) v c = Some e"
      by (auto split: if_splits)
    from "6.IH"(1) [OF None len m2] obtain u' v' where
      "v = u' @ v'" "u' \<in> lang ic (LazyStar r)" "c v' = Some e" by blast
    with s u have "s = (u @ u') @ v' \<and> u @ u' \<in> lang ic (LazyStar r) \<and> c v' = Some e"
      by (auto intro: kleene_app)
    then show ?thesis by blast
  qed
next
  case (7 ic r s c)
  let ?k = "\<lambda>s'. if length s' < length s then c s' else None"
  show ?case
  proof (cases "matcher ic r s ?k")
    case None
    with "7.prems" have "c s = Some e" by simp
    then have "s = [] @ s \<and> [] \<in> lang ic (Opt r) \<and> c s = Some e" by simp
    then show ?thesis by blast
  next
    case (Some e')
    with "7.prems" have m: "matcher ic r s ?k = Some e" by simp
    from "7.IH" [OF m] obtain u v where
      "s = u @ v" "u \<in> lang ic r" "?k v = Some e" by blast
    then have "s = u @ v \<and> u \<in> lang ic (Opt r) \<and> c v = Some e"
      by (auto split: if_splits)
    then show ?thesis by blast
  qed
qed


text \<open>
  Completeness: if some split of the text has a prefix in the language and a rest the
  continuation accepts, backtracking finds a match (not necessarily that one).
\<close>

lemma matcher_complete:
  "s = u @ v \<Longrightarrow> u \<in> lang ic r \<Longrightarrow> c v \<noteq> None \<Longrightarrow> matcher ic r s c \<noteq> None"
proof (induction ic r s c arbitrary: u v rule: matcher.induct)
  case (1 ic s c)
  then show ?case by simp
next
  case (2 ic a s c)
  then show ?case by auto
next
  case (3 ic r1 r2 s c)
  from "3.prems"(2) obtain u1 u2 where
    u: "u = u1 @ u2" and u1: "u1 \<in> lang ic r1" and u2: "u2 \<in> lang ic r2" by auto
  have "matcher ic r2 (u2 @ v) c \<noteq> None"
    using "3.IH"(1) [OF refl u2 "3.prems"(3)] .
  moreover have "s = u1 @ (u2 @ v)"
    using "3.prems"(1) u by simp
  ultimately have "matcher ic r1 s (\<lambda>s'. matcher ic r2 s' c) \<noteq> None"
    using "3.IH"(2) [of u1 "u2 @ v"] u1 by blast
  then show ?case by simp
next
  case (4 ic r1 r2 s c)
  show ?case
  proof (cases "matcher ic r1 s c")
    case (Some e)
    then show ?thesis by simp
  next
    case None
    with "4.IH"(1) [OF "4.prems"(1) _ "4.prems"(3)] have "u \<notin> lang ic r1" by blast
    with "4.prems"(2) have "u \<in> lang ic r2" by simp
    from "4.IH"(2) [OF None "4.prems"(1) this "4.prems"(3)] None show ?thesis by simp
  qed
next
  case (5 ic r s c)
  let ?k = "\<lambda>s'. if length s' < length s then matcher ic (Star r) s' c else None"
  show ?case
  proof (cases "u = []")
    case True
    with "5.prems" have "c s \<noteq> None" by simp
    then show ?thesis by (simp split: option.splits)
  next
    case False
    from "5.prems"(2) have "u \<in> kleene (lang ic r)" by simp
    from kleene_nonempty_split [OF this False] obtain u1 u2 where
      u: "u = u1 @ u2" and ne: "u1 \<noteq> []" and u1: "u1 \<in> lang ic r"
      and u2: "u2 \<in> kleene (lang ic r)" by blast
    have s: "s = u1 @ (u2 @ v)" using "5.prems"(1) u by simp
    with ne have len: "length (u2 @ v) < length s" by simp
    from u2 have "u2 \<in> lang ic (Star r)" by simp
    from "5.IH"(1) [OF len refl this "5.prems"(3)] len have "?k (u2 @ v) \<noteq> None"
      by simp
    from "5.IH"(2) [OF s u1 this] obtain e where "matcher ic r s ?k = Some e"
      by auto
    then show ?thesis by simp
  qed
next
  case (6 ic r s c)
  let ?k = "\<lambda>s'. if length s' < length s then matcher ic (LazyStar r) s' c else None"
  show ?case
  proof (cases "c s")
    case (Some e)
    then show ?thesis by simp
  next
    case None
    with "6.prems" have False: "u \<noteq> []" by auto
    from "6.prems"(2) have "u \<in> kleene (lang ic r)" by simp
    from kleene_nonempty_split [OF this False] obtain u1 u2 where
      u: "u = u1 @ u2" and ne: "u1 \<noteq> []" and u1: "u1 \<in> lang ic r"
      and u2: "u2 \<in> kleene (lang ic r)" by blast
    have s: "s = u1 @ (u2 @ v)" using "6.prems"(1) u by simp
    with ne have len: "length (u2 @ v) < length s" by simp
    from u2 have "u2 \<in> lang ic (LazyStar r)" by simp
    from "6.IH"(1) [OF None len refl this "6.prems"(3)] len have "?k (u2 @ v) \<noteq> None"
      by simp
    from "6.IH"(2) [OF None s u1 this] None show ?thesis
      by simp
  qed
next
  case (7 ic r s c)
  let ?k = "\<lambda>s'. if length s' < length s then c s' else None"
  show ?case
  proof (cases "u = []")
    case True
    with "7.prems" have "c s \<noteq> None" by simp
    then show ?thesis by (simp split: option.splits)
  next
    case False
    with "7.prems" have u: "u \<in> lang ic r" and len: "length v < length s" by auto
    from len "7.prems"(3) have "?k v \<noteq> None" by simp
    from "7.IH" [OF "7.prems"(1) u this] obtain e where "matcher ic r s ?k = Some e"
      by auto
    then show ?thesis by simp
  qed
qed

lemma match_at_Some_suffix:
  "match_at R s = Some rest \<Longrightarrow> \<exists>u. s = u @ rest \<and> u \<in> lang (ignoreCase R) (source R)"
  unfolding match_at_def by (drule matcher_sound) auto

lemma match_at_None_iff:
  "match_at R s = None \<longleftrightarrow> (\<forall>u v. s = u @ v \<longrightarrow> u \<notin> lang (ignoreCase R) (source R))"
proof
  assume n: "match_at R s = None"
  show "\<forall>u v. s = u @ v \<longrightarrow> u \<notin> lang (ignoreCase R) (source R)"
  proof (intro allI impI notI)
    fix u v
    assume "s = u @ v" and "u \<in> lang (ignoreCase R) (source R)"
    then have "matcher (ignoreCase R) (source R) s Some \<noteq> None"
      by (rule matcher_complete) simp
    with n show False by (simp add: match_at_def)
  qed
next
  assume a: "\<forall>u v. s = u @ v \<longrightarrow> u \<notin> lang (ignoreCase R) (source R)"
  show "match_at R s = None"
  proof (cases "match_at R s")
    case None
    then show ?thesis .
  next
    case (Some rest)
    from match_at_Some_suffix [OF this] a show ?thesis by blast
  qed
qed

lemma exec_search_None_iff:
  "exec_search R s = None \<longleftrightarrow>
     (\<forall>a u b. s = a @ u @ b \<longrightarrow> u \<notin> lang (ignoreCase R) (source R))"
proof (induction s)
  case Nil
  show ?case by (simp add: match_at_None_iff)
next
  case (Cons x xs)
  have "(\<forall>a u b. x # xs = a @ u @ b \<longrightarrow> u \<notin> lang (ignoreCase R) (source R)) \<longleftrightarrow>
        (\<forall>u b. x # xs = u @ b \<longrightarrow> u \<notin> lang (ignoreCase R) (source R)) \<and>
        (\<forall>a u b. xs = a @ u @ b \<longrightarrow> u \<notin> lang (ignoreCase R) (source R))"
    (is "?L \<longleftrightarrow> ?P \<and> ?Q")
  proof
    assume l: ?L
    have ?P using l [rule_format, of "[]"] by simp
    moreover have ?Q
    proof (intro allI impI)
      fix a u b assume "xs = a @ u @ b"
      then have "x # xs = (x # a) @ u @ b" by simp
      with l show "u \<notin> lang (ignoreCase R) (source R)" by blast
    qed
    ultimately show "?P \<and> ?Q" ..
  next
    assume pq: "?P \<and> ?Q"
    show ?L
    proof (intro allI impI)
      fix a u b assume e: "x # xs = a @ u @ b"
      show "u \<notin> lang (ignoreCase R) (source R)"
      proof (cases a)
        case Nil
        with e pq show ?thesis by simp
      next
        case (Cons y ys)
        with e have "xs = ys @ u @ b" by simp
        with pq show ?thesis by blast
      qed
    qed
  qed
  note split = this
  show ?case
  proof (cases "match_at R (x # xs)")
    case None
    then have "\<forall>u b. x # xs = u @ b \<longrightarrow> u \<notin> lang (ignoreCase R) (source R)"
      by (simp add: match_at_None_iff)
    with None Cons split show ?thesis by simp
  next
    case (Some rest)
    then have "\<not> (\<forall>u b. x # xs = u @ b \<longrightarrow> u \<notin> lang (ignoreCase R) (source R))"
      using match_at_None_iff [of R "x # xs"] by simp
    with Some split show ?thesis by simp
  qed
qed

section \<open>Sanitizer: replacements that cannot create a match\<close>

subsection \<open>Languages, atoms and parts of a text\<close>

lemma lang_nullable: "[] \<in> lang ic r \<Longrightarrow> nullable r"
  by (induction r) auto

lemma kleene_atoms:
  assumes "w \<in> kleene A" and "\<And>u. u \<in> A \<Longrightarrow> \<forall>x \<in> set u. P x"
  shows "\<forall>x \<in> set w. P x"
  using assms(1)
proof (induction rule: kleene.induct)
  case kleene_Nil
  show ?case by simp
next
  case (kleene_app u v)
  with assms(2) show ?case by auto
qed

lemma lang_atoms:
  "u \<in> lang ic r \<Longrightarrow> \<forall>x \<in> set u. \<exists>a \<in> set (atoms r). atom_matches ic a x"
proof (induction r arbitrary: u)
  case (Star r)
  from Star.prems have "u \<in> kleene (lang ic r)" by simp
  then show ?case
    by (rule kleene_atoms) (use Star.IH in simp)
next
  case (LazyStar r)
  from LazyStar.prems have "u \<in> kleene (lang ic r)" by simp
  then show ?case
    by (rule kleene_atoms) (use LazyStar.IH in simp)
qed fastforce+

lemma lang_avoids:
  "u \<in> lang ic r \<Longrightarrow> \<forall>a \<in> set (atoms r). \<not> atom_matches ic a d \<Longrightarrow> d \<notin> set u"
  using lang_atoms by blast

lemma lang_must_contain:
  assumes "\<And>x. canonicalize ic d = canonicalize ic x \<Longrightarrow> x = d"
  shows "must_contain d r \<Longrightarrow> u \<in> lang ic r \<Longrightarrow> d \<in> set u"
proof (induction r arbitrary: u)
  case (Atom a)
  with assms show ?case by auto
qed auto

lemma no_factor_sub: "no_factor L (a @ s @ b) \<Longrightarrow> no_factor L s"
  unfolding no_factor_def
proof (intro allI impI)
  fix a' u b'
  assume h: "\<forall>a' u b'. a @ s @ b = a' @ u @ b' \<longrightarrow> u \<notin> L" and "s = a' @ u @ b'"
  then have "a @ s @ b = (a @ a') @ u @ (b' @ b)" by simp
  with h show "u \<notin> L" by blast
qed

text \<open>
  Joining two texts with a character that no text of \<open>L\<close> contains creates no part in \<open>L\<close>.
\<close>

lemma no_factor_delim:
  assumes x: "no_factor L x" and y: "no_factor L y" and d: "\<forall>u \<in> L. d \<notin> set u"
  shows "no_factor L (x @ d # y)"
  unfolding no_factor_def
proof (intro allI impI notI)
  fix a u b
  assume e: "x @ d # y = a @ u @ b" and u: "u \<in> L"
  from d u have du: "d \<notin> set u" by blast
  from e consider t where "x = a @ t" "t @ d # y = u @ b"
    | t where "x @ t = a" "d # y = t @ u @ b"
    by (auto simp: append_eq_append_conv2)
  then show False
  proof cases
    case 1
    from 1(2) consider t' where "t = u @ t'" | t' where "t @ t' = u" "d # y = t' @ b"
      by (auto simp: append_eq_append_conv2)
    then show False
    proof cases
      case 1
      with \<open>x = a @ t\<close> have "x = a @ u @ t'" by simp
      with x u show False unfolding no_factor_def by blast
    next
      case 2
      show False
      proof (cases t')
        case Nil
        with 2 \<open>x = a @ t\<close> have "x = a @ u @ []" by simp
        with x u show False unfolding no_factor_def by blast
      next
        case (Cons z zs)
        with 2 du show False by auto
      qed
    qed
  next
    case 2
    show False
    proof (cases t)
      case Nil
      with 2 have ub: "d # y = u @ b" and xa: "x = a" by simp_all
      show False
      proof (cases u)
        case Nil
        with xa have "x = a @ u @ []" by simp
        with x u show False unfolding no_factor_def by blast
      next
        case (Cons z zs)
        with ub du show False by auto
      qed
    next
      case (Cons z zs)
      with 2 have "y = zs @ u @ b" by simp
      with y u show False unfolding no_factor_def by blast
    qed
  qed
qed

lemma match_at_shorter:
  assumes "\<not> nullable (source R)" and "match_at R s = Some rest"
  shows "\<exists>m. s = m @ rest \<and> m \<noteq> [] \<and> length rest < length s"
proof -
  from match_at_Some_suffix [OF assms(2)] obtain u where
    s: "s = u @ rest" and u: "u \<in> lang (ignoreCase R) (source R)" by blast
  from u assms(1) lang_nullable have "u \<noteq> []" by blast
  with s show ?thesis by auto
qed

text \<open>
  The replacement loop of a pattern \<open>q\<close> with a filler that starts and ends with such a
  character, and has no part in \<open>L\<close> in between, leaves no part in \<open>L\<close>, provided that
  no text of \<open>L\<close> starts where \<open>q\<close> fails to match. \<open>pre\<close> is the text already emitted.
\<close>

lemma replace_loop_no_factor:
  assumes nn: "\<not> nullable (source q)"
    and e: "[] \<notin> L"
    and d1: "\<forall>u \<in> L. d1 \<notin> set u"
    and d2: "\<forall>u \<in> L. d2 \<notin> set u"
    and mid: "no_factor L mid"
  shows "(\<forall>a t. s = a @ t \<longrightarrow> match_at q t = None \<longrightarrow> (\<forall>u v. t = u @ v \<longrightarrow> u \<notin> L)) \<Longrightarrow>
         (\<forall>a u b. pre @ s = a @ u @ b \<longrightarrow> length a < length pre \<longrightarrow> u \<notin> L) \<Longrightarrow>
         no_factor L (pre @ replace_loop q (d1 # mid @ [d2]) s)"
proof (induction s arbitrary: pre rule: length_induct)
  case (1 s)
  note K = "1.prems"(1) and H = "1.prems"(2)
  let ?B = "d1 # mid @ [d2]"
  have pre: "no_factor L pre"
    unfolding no_factor_def
  proof (intro allI impI)
    fix a u b assume p: "pre = a @ u @ b"
    show "u \<notin> L"
    proof (cases "length a < length pre")
      case True
      from p have "pre @ s = a @ u @ (b @ s)" by simp
      with H True show ?thesis by blast
    next
      case False
      with p have "u = []" by auto
      with e show ?thesis by simp
    qed
  qed
  show ?case
  proof (cases "match_at q s")
    case None
    with K have P0: "\<forall>u v. s = u @ v \<longrightarrow> u \<notin> L" by blast
    show ?thesis
    proof (cases s)
      case Nil
      with None pre show ?thesis by (simp add: replace_loop_Nil_None)
    next
      case (Cons x xs)
      have K': "\<forall>a t. xs = a @ t \<longrightarrow> match_at q t = None \<longrightarrow> (\<forall>u v. t = u @ v \<longrightarrow> u \<notin> L)"
      proof (intro allI impI)
        fix a t u v assume "xs = a @ t" "match_at q t = None" "t = u @ v"
        with Cons have "s = (x # a) @ t" by simp
        with K \<open>match_at q t = None\<close> \<open>t = u @ v\<close> show "u \<notin> L" by blast
      qed
      have H': "\<forall>a u b. (pre @ [x]) @ xs = a @ u @ b \<longrightarrow> length a < length (pre @ [x]) \<longrightarrow> u \<notin> L"
      proof (intro allI impI)
        fix a u b assume eq: "(pre @ [x]) @ xs = a @ u @ b" and len: "length a < length (pre @ [x])"
        show "u \<notin> L"
        proof (cases "length a < length pre")
          case True
          from eq Cons have "pre @ s = a @ u @ b" by simp
          with H True show ?thesis by blast
        next
          case False
          with len have "length a = length pre" by simp
          with eq Cons have "s = u @ b" by simp
          with P0 show ?thesis by blast
        qed
      qed
      have "length xs < length s" using Cons by simp
      with "1.IH" K' H' have "no_factor L ((pre @ [x]) @ replace_loop q ?B xs)" by blast
      with None Cons show ?thesis by (simp add: replace_loop_Cons_None)
    qed
  next
    case (Some rest)
    from match_at_shorter [OF nn Some] obtain m where
      s: "s = m @ rest" and len: "length rest < length s" by blast
    have K': "\<forall>a t. rest = a @ t \<longrightarrow> match_at q t = None \<longrightarrow> (\<forall>u v. t = u @ v \<longrightarrow> u \<notin> L)"
    proof (intro allI impI)
      fix a t u v assume "rest = a @ t" "match_at q t = None" "t = u @ v"
      with s have "s = (m @ a) @ t" by simp
      with K \<open>match_at q t = None\<close> \<open>t = u @ v\<close> show "u \<notin> L" by blast
    qed
    have H': "\<forall>a u b. [] @ rest = a @ u @ b \<longrightarrow> length a < length ([] :: code_unit list) \<longrightarrow> u \<notin> L"
      by simp
    from "1.IH" len K' H' have "no_factor L ([] @ replace_loop q ?B rest)" by blast
    then have out: "no_factor L (replace_loop q ?B rest)" by simp
    have "no_factor L (mid @ d2 # replace_loop q ?B rest)"
      using mid out d2 by (rule no_factor_delim)
    with pre have "no_factor L (pre @ d1 # (mid @ d2 # replace_loop q ?B rest))"
      using d1 by (rule no_factor_delim)
    with Some len show ?thesis by (simp add: replace_loop_Some)
  qed
qed

subsection \<open>Inert patterns\<close>

text \<open>
  Once an inert pattern matches nowhere in a text, replacing the matches of any other
  pattern by the placeholder or by an entity does not bring a match back; and its own
  replacement leaves no match behind.
\<close>

lemma exec_search_no_factor:
  "exec_search R s = None \<longleftrightarrow> no_factor (lang (ignoreCase R) (source R)) s"
  by (simp add: exec_search_None_iff no_factor_def)

lemma replace_loop_id: "exec_search R s = None \<Longrightarrow> replace_loop R rep s = s"
proof (induction s)
  case Nil
  then show ?case by (simp add: replace_loop_Nil_None)
next
  case (Cons x xs)
  then show ?case
    by (simp add: replace_loop_Cons_None split: option.splits)
qed

lemma set_replace_loop:
  "\<not> nullable (source q) \<Longrightarrow> set (replace_loop q B s) \<subseteq> set s \<union> set B"
proof (induction s rule: length_induct)
  case (1 s)
  show ?case
  proof (cases "match_at q s")
    case None
    show ?thesis
    proof (cases s)
      case Nil
      with None show ?thesis by (simp add: replace_loop_Nil_None)
    next
      case (Cons x xs)
      with 1 have "set (replace_loop q B xs) \<subseteq> set xs \<union> set B" by simp
      with None Cons show ?thesis by (auto simp: replace_loop_Cons_None)
    qed
  next
    case (Some rest)
    from match_at_shorter [OF "1.prems" Some] obtain m where
      s: "s = m @ rest" and len: "length rest < length s" by blast
    with 1 have "set (replace_loop q B rest) \<subseteq> set rest \<union> set B" by blast
    with Some len s show ?thesis by (auto simp: replace_loop_Some)
  qed
qed

lemma fillers:
  "BLOCKED = 91 # js ''BLOCKED'' @ [93]"
  "js ''&lt;'' = 38 # js ''lt'' @ [59]"
  "js ''&gt;'' = 38 # js ''gt'' @ [59]"
  "js ''&quot;'' = 38 # js ''quot'' @ [59]"
  "js ''&#x27;'' = 38 # js ''#x27'' @ [59]"
  by (simp_all add: BLOCKED_def js_def)

lemma inert_replace_other:
  assumes R: "inert R" and q: "\<not> nullable (source q)"
    and B: "B \<in> {BLOCKED, js ''&lt;'', js ''&gt;'', js ''&quot;'', js ''&#x27;''}"
    and K: "\<forall>a t. s = a @ t \<longrightarrow> match_at q t = None \<longrightarrow>
              (\<forall>u v. t = u @ v \<longrightarrow> u \<notin> lang (ignoreCase R) (source R))"
  shows "exec_search R (replace_loop q B s) = None"
proof -
  let ?L = "lang (ignoreCase R) (source R)"
  from R have e: "[] \<notin> ?L"
    using lang_nullable by (auto simp: inert_def)
  have d: "\<forall>u \<in> ?L. d \<notin> set u" if "d \<in> {91, 93, 38, 59}" for d
  proof
    fix u assume u: "u \<in> ?L"
    from R that have "\<forall>a \<in> set (atoms (source R)). \<not> atom_matches (ignoreCase R) a d"
      by (auto simp: inert_def list_all_iff js_def)
    with u show "d \<notin> set u" by (rule lang_avoids)
  qed
  have m: "no_factor ?L mid"
    if "mid \<in> {js ''BLOCKED'', js ''lt'', js ''gt'', js ''quot'', js ''#x27''}" for mid
    using R that by (auto simp: inert_def exec_search_no_factor)
  have "no_factor ?L ([] @ replace_loop q (d1 # mid @ [d2]) s)"
    if "d1 \<in> {91, 93, 38, 59}" "d2 \<in> {91, 93, 38, 59}"
      "mid \<in> {js ''BLOCKED'', js ''lt'', js ''gt'', js ''quot'', js ''#x27''}" for d1 d2 mid
    using q e d [OF that(1)] d [OF that(2)] m [OF that(3)] K
    by (rule replace_loop_no_factor) simp
  with B have "no_factor ?L ([] @ replace_loop q B s)"
    by (auto simp: fillers)
  then show ?thesis
    by (simp add: exec_search_no_factor)
qed

lemma inert_replace_preserved:
  assumes "inert R" and "\<not> nullable (source q)"
    and "B \<in> {BLOCKED, js ''&lt;'', js ''&gt;'', js ''&quot;'', js ''&#x27;''}"
    and "exec_search R s = None"
  shows "exec_search R (replace_loop q B s) = None"
proof (rule inert_replace_other [OF assms(1-3)], intro allI impI)
  fix a t u v
  assume "s = a @ t" "t = u @ v"
  then have "s = a @ u @ v" by simp
  with assms(4) show "u \<notin> lang (ignoreCase R) (source R)"
    by (auto simp: exec_search_None_iff)
qed

lemma inert_replace_self:
  assumes "inert R"
  shows "exec_search R (replace_loop R BLOCKED s) = None"
proof (rule inert_replace_other [OF assms], goal_cases)
  case 1
  from assms show ?case by (simp add: inert_def)
next
  case 2
  show ?case by simp
next
  case 3
  show ?case by (auto simp: match_at_None_iff)
qed

subsection \<open>The patterns of the list\<close>

text \<open>
  Every pattern of the list matches at least one character. Apart from Command
  Injection, each one is inert (JavaScript URI, Event Handler, Path Traversal) or needs a
  \<^verbatim>\<open><\<close> or a single quote in the text (the other four).
\<close>

lemma patterns_not_nullable:
  "p \<in> set DANGEROUS_PATTERNS \<Longrightarrow> \<not> nullable (source (pattern p))"
  by (auto simp: DANGEROUS_PATTERNS_def regexp_literal_def chr_def Plus_def)

lemma patterns_classified:
  "p \<in> set DANGEROUS_PATTERNS \<Longrightarrow>
     name p = ''Command Injection'' \<or> inert (pattern p) \<or>
     must_contain 60 (source (pattern p)) \<or> must_contain 39 (source (pattern p))"
  by (auto simp: DANGEROUS_PATTERNS_def regexp_literal_def chr_def Plus_def inert_def js_def
      match_at_def canonicalize_def is_space_def is_word_char_def is_digit_def)

lemma canonicalize_lt: "canonicalize ic 60 = canonicalize ic x \<Longrightarrow> x = 60"
  by (auto simp: canonicalize_def split: if_splits)

lemma canonicalize_apos: "canonicalize ic 39 = canonicalize ic x \<Longrightarrow> x = 39"
  by (auto simp: canonicalize_def split: if_splits)

lemma exec_search_must_contain:
  assumes "must_contain d (source R)"
    and "\<And>x. canonicalize (ignoreCase R) d = canonicalize (ignoreCase R) x \<Longrightarrow> x = d"
    and "d \<notin> set s"
  shows "exec_search R s = None"
  unfolding exec_search_None_iff
proof (intro allI impI notI)
  fix a u b assume "s = a @ u @ b" and "u \<in> lang (ignoreCase R) (source R)"
  with lang_must_contain [OF assms(2) assms(1)] have "d \<in> set s" by auto
  with assms(3) show False by simp
qed

subsection \<open>The first pass leaves a quiet text\<close>

lemma foldl_step_inert:
  assumes R: "inert R"
  shows "set ps \<subseteq> set DANGEROUS_PATTERNS \<Longrightarrow>
         exec_search R w = None \<or> (\<exists>p \<in> set ps. pattern p = R) \<Longrightarrow>
         exec_search R (foldl step w ps) = None"
proof (induction ps arbitrary: w)
  case Nil
  then show ?case by simp
next
  case (Cons p ps)
  from Cons.prems(1) have nn: "\<not> nullable (source (pattern p))"
    by (simp add: patterns_not_nullable)
  have "exec_search R (step w p) = None \<or> (\<exists>p \<in> set ps. pattern p = R)"
  proof (cases "exec_search R w = None")
    case True
    with R nn have "exec_search R (step w p) = None"
      by (intro inert_replace_preserved) simp_all
    then show ?thesis ..
  next
    case False
    with Cons.prems(2) consider "pattern p = R" | "\<exists>p \<in> set ps. pattern p = R" by auto
    then show ?thesis
    proof cases
      case 1
      with R show ?thesis by (auto simp: inert_replace_self)
    next
      case 2
      then show ?thesis ..
    qed
  qed
  with Cons.IH [of "step w p"] Cons.prems(1) show ?case by simp
qed

lemma replace_char_loop:
  "replace_char x ent w = replace_loop (regexp_literal (chr x) False) (js ent) w"
  by (simp add: replace_char_def regexp_replace_def)

lemma html_encode_inert:
  assumes "inert R" and "exec_search R w = None"
  shows "exec_search R (html_encode w) = None"
proof -
  have nn: "\<not> nullable (source (regexp_literal (chr x) False))" for x
    by (simp add: regexp_literal_def chr_def)
  have one: "exec_search R (replace_char x ent v) = None"
    if "exec_search R v = None" "js ent \<in> {BLOCKED, js ''&lt;'', js ''&gt;'', js ''&quot;'', js ''&#x27;''}"
    for x ent v
    unfolding replace_char_loop using assms(1) nn that(2,1) by (rule inert_replace_preserved)
  show ?thesis
    unfolding html_encode_def using assms(2) by (intro one) simp_all
qed

lemma html_encode_id:
  assumes "set s \<inter> set (js [CHR ''<'', CHR ''>'', CHR 0x22, CHR 0x27]) = {}"
  shows "html_encode s = s"
proof -
  have one: "replace_char x ent v = v" if "of_char x \<notin> set v" for x ent v
  proof -
    have m: "map (\<lambda>c. if c = of_char x then js ent else [c]) v = map (\<lambda>c. [c]) v"
      using that by (intro map_cong) auto
    have c: "concat (map (\<lambda>c. [c]) v) = v"
      by (induction v) simp_all
    show ?thesis unfolding replace_char_concat m by (rule c)
  qed
  from assms have "of_char CHR ''<'' \<notin> set s" "of_char CHR ''>'' \<notin> set s"
    "of_char CHR 0x22 \<notin> set s" "of_char CHR 0x27 \<notin> set s"
    by (auto simp: js_def)
  then show ?thesis by (simp add: html_encode_def one)
qed

text \<open>The text returned by \<^verbatim>\<open>sanitizeInput\<close> is quiet, whatever the input.\<close>

lemma first_pass_quiet: "quiet (sanitized (fst (sanitizeInput DANGEROUS_PATTERNS input)))"
proof -
  let ?w = "foldl step input DANGEROUS_PATTERNS"
  have "set (html_encode ?w) \<inter> set (js [CHR ''<'', CHR ''>'', CHR 0x22, CHR 0x27]) = {}"
    using html_encode_chars [of ?w] by (simp add: js_def)
  moreover have "exec_search (pattern p) (html_encode ?w) = None"
    if "p \<in> set DANGEROUS_PATTERNS" "inert (pattern p)" for p
  proof -
    from that have "exec_search (pattern p) ?w = None"
      by (intro foldl_step_inert) auto
    with that(2) show ?thesis by (rule html_encode_inert)
  qed
  ultimately show ?thesis
    by (simp add: quiet_def list_all_iff sanitizeInput_fold)
qed

subsection \<open>A second pass over a quiet text\<close>

lemma quiet_no_match:
  assumes "quiet w" and "p \<in> set DANGEROUS_PATTERNS" and "name p \<noteq> ''Command Injection''"
  shows "exec_search (pattern p) w = None"
proof -
  from assms(1) have lt: "60 \<notin> set w" and ap: "39 \<notin> set w"
    by (auto simp: quiet_def js_def)
  from patterns_classified [OF assms(2)] assms(3) consider
    "inert (pattern p)" | "must_contain 60 (source (pattern p))"
    | "must_contain 39 (source (pattern p))" by blast
  then show ?thesis
  proof cases
    case 1
    with assms(1,2) show ?thesis by (auto simp: quiet_def list_all_iff)
  next
    case 2
    then show ?thesis using canonicalize_lt lt by (rule exec_search_must_contain)
  next
    case 3
    then show ?thesis using canonicalize_apos ap by (rule exec_search_must_contain)
  qed
qed

lemma quiet_step:
  assumes "quiet w" and "p \<in> set DANGEROUS_PATTERNS"
  shows "quiet (step w p)"
proof -
  from assms(2) have nn: "\<not> nullable (source (pattern p))"
    by (rule patterns_not_nullable)
  have "set (step w p) \<subseteq> set w \<union> set BLOCKED"
    using nn by (rule set_replace_loop)
  moreover have "set BLOCKED \<inter> set (js [CHR ''<'', CHR ''>'', CHR 0x22, CHR 0x27]) = {}"
    by (simp add: BLOCKED_def js_def)
  ultimately have "set (step w p) \<inter> set (js [CHR ''<'', CHR ''>'', CHR 0x22, CHR 0x27]) = {}"
    using assms(1) unfolding quiet_def by blast
  moreover have "exec_search (pattern r) (step w p) = None"
    if "r \<in> set DANGEROUS_PATTERNS" "inert (pattern r)" for r
  proof -
    from assms(1) that have "exec_search (pattern r) w = None"
      by (auto simp: quiet_def list_all_iff)
    with that(2) nn show ?thesis
      by (intro inert_replace_preserved) simp_all
  qed
  ultimately show ?thesis
    by (simp add: quiet_def list_all_iff)
qed

lemma foldl_step_quiet:
  "quiet w \<Longrightarrow> set ps \<subseteq> set DANGEROUS_PATTERNS \<Longrightarrow> foldl step w ps = foldl step_ci w ps"
proof (induction ps arbitrary: w)
  case Nil
  show ?case by simp
next
  case (Cons p ps)
  from Cons.prems have p: "p \<in> set DANGEROUS_PATTERNS" by simp
  have eq: "step w p = step_ci w p"
  proof (cases "name p = ''Command Injection''")
    case True
    then show ?thesis by (simp add: step_ci_def)
  next
    case False
    from quiet_no_match [OF Cons.prems(1) p False] have "exec_search (pattern p) w = None" .
    then show ?thesis using False by (simp add: step_ci_def replace_loop_id)
  qed
  have "quiet (step w p)" using Cons.prems(1) p by (rule quiet_step)
  with Cons.IH [of "step w p"] Cons.prems(2) eq show ?case by simp
qed

lemma foldl_step_ci_other:
  "\<forall>q \<in> set ps. name q \<noteq> ''Command Injection'' \<Longrightarrow> foldl step_ci w ps = w"
  by (induction ps arbitrary: w) (simp_all add: step_ci_def)

lemma foldl_step_ci_single:
  assumes "\<forall>q \<in> set a. name q \<noteq> ''Command Injection''"
    and "\<forall>q \<in> set b. name q \<noteq> ''Command Injection''"
    and "name p = ''Command Injection''"
  shows "foldl step_ci w (a @ p # b) = step w p"
  using assms by (simp add: foldl_step_ci_other) (simp add: step_ci_def)

lemma filter_single:
  assumes "\<forall>q \<in> set a. name q \<noteq> ''Command Injection''"
    and "\<forall>q \<in> set b. name q \<noteq> ''Command Injection''"
    and "name p = ''Command Injection''"
  shows "map name (filter (\<lambda>q. name q = ''Command Injection'' \<and> E q) (a @ p # b))
         = (if E p then [''Command Injection''] else [])"
proof -
  have "filter (\<lambda>q. name q = ''Command Injection'' \<and> E q) xs = []"
    if "\<forall>q \<in> set xs. name q \<noteq> ''Command Injection''" for xs
    using that by (induction xs) simp_all
  with assms show ?thesis by simp
qed

lemma patterns_split:
  "DANGEROUS_PATTERNS =
     take 4 DANGEROUS_PATTERNS @ (DANGEROUS_PATTERNS ! 4) # drop 5 DANGEROUS_PATTERNS"
  by (simp add: DANGEROUS_PATTERNS_def)

lemma patterns_names:
  "\<forall>q \<in> set (take 4 DANGEROUS_PATTERNS). name q \<noteq> ''Command Injection''"
  "\<forall>q \<in> set (drop 5 DANGEROUS_PATTERNS). name q \<noteq> ''Command Injection''"
  "name (DANGEROUS_PATTERNS ! 4) = ''Command Injection''"
  by (simp_all add: DANGEROUS_PATTERNS_def)


text \<open>
  Sanitizing a quiet text: only the Command Injection pattern can match, so only its
  label can be reported and only its matches are replaced.
\<close>

lemma resanitize:
  assumes "quiet t"
  shows "fst (sanitizeInput DANGEROUS_PATTERNS t) =
           \<lparr>sanitized = step t (DANGEROUS_PATTERNS ! 4),
            threats = (if exec_search (pattern (DANGEROUS_PATTERNS ! 4)) t \<noteq> None
                       then [''Command Injection''] else [])\<rparr>"
proof -
  let ?ci = "DANGEROUS_PATTERNS ! 4"
  let ?E = "\<lambda>p. exec_search (pattern p) t \<noteq> None"
  have ci: "?ci \<in> set DANGEROUS_PATTERNS"
    by (subst (2) patterns_split) simp
  have "foldl step t DANGEROUS_PATTERNS = foldl step_ci t DANGEROUS_PATTERNS"
    using assms by (rule foldl_step_quiet) simp
  also have "\<dots> = foldl step_ci t (take 4 DANGEROUS_PATTERNS @ ?ci # drop 5 DANGEROUS_PATTERNS)"
    using patterns_split by simp
  also have "\<dots> = step t ?ci"
    using patterns_names by (rule foldl_step_ci_single)
  finally have w: "foldl step t DANGEROUS_PATTERNS = step t ?ci" .
  have "quiet (step t ?ci)"
    using assms ci by (rule quiet_step)
  then have enc: "html_encode (step t ?ci) = step t ?ci"
    by (intro html_encode_id) (simp add: quiet_def)
  have "filter ?E DANGEROUS_PATTERNS
      = filter (\<lambda>p. name p = ''Command Injection'' \<and> ?E p) DANGEROUS_PATTERNS"
  proof (intro filter_cong refl)
    fix p assume "p \<in> set DANGEROUS_PATTERNS"
    note h = quiet_no_match [OF assms this]
    show "?E p = (name p = ''Command Injection'' \<and> ?E p)"
      by (cases "name p = ''Command Injection''") (simp_all add: h)
  qed
  also have "\<dots> = filter (\<lambda>p. name p = ''Command Injection'' \<and> ?E p)
                     (take 4 DANGEROUS_PATTERNS @ ?ci # drop 5 DANGEROUS_PATTERNS)"
    using patterns_split by simp
  finally have "map name (filter ?E DANGEROUS_PATTERNS)
      = map name (filter (\<lambda>p. name p = ''Command Injection'' \<and> ?E p)
                     (take 4 DANGEROUS_PATTERNS @ ?ci # drop 5 DANGEROUS_PATTERNS))"
    by (rule arg_cong)
  also have "\<dots> = (if ?E ?ci then [''Command Injection''] else [])"
    using patterns_names by (rule filter_single)
  finally have thr: "map name (filter ?E DANGEROUS_PATTERNS)
      = (if ?E ?ci then [''Command Injection''] else [])" .
  show ?thesis
    unfolding sanitizeInput_fold fst_conv w enc thr ..
qed

section \<open>Sanitizer: worked examples\<close>

lemmas eval_regex = match_at_def regexp_literal_def js_def chr_def Plus_def canonicalize_def
  is_space_def is_digit_def is_word_char_def is_line_terminator_def BLOCKED_def
  replace_loop_Nil_None replace_loop_Cons_None replace_loop_Some

lemma html_encode_BLOCKED: "html_encode (js ''[BLOCKED]'') = js ''[BLOCKED]''"
  by (rule html_encode_id) (simp add: js_def)

lemma sanitize_script_example:
  "fst (sanitizeInput DANGEROUS_PATTERNS (js ''<script>alert(1)</script>''))
     = \<lparr>sanitized = js ''[BLOCKED]'', threats = [''XSS Script Tag'']\<rparr>"
proof -
  let ?input = "js ''<script>alert(1)</script>''"
  have t: "map name (filter (\<lambda>p. exec_search (pattern p) ?input \<noteq> None) DANGEROUS_PATTERNS)
      = [''XSS Script Tag'']"
    by (simp add: DANGEROUS_PATTERNS_def eval_regex)
  have w: "foldl step ?input DANGEROUS_PATTERNS = js ''[BLOCKED]''"
    by (simp add: DANGEROUS_PATTERNS_def eval_regex)
  show ?thesis
    unfolding sanitizeInput_fold fst_conv t w html_encode_BLOCKED ..
qed

lemma sanitize_empty_example:
  "fst (sanitizeInput DANGEROUS_PATTERNS (js '''')) = \<lparr>sanitized = js '''', threats = []\<rparr>"
proof -
  have t: "map name (filter (\<lambda>p. exec_search (pattern p) (js '''') \<noteq> None) DANGEROUS_PATTERNS)
      = []"
    by (simp add: DANGEROUS_PATTERNS_def eval_regex)
  have w: "foldl step (js '''') DANGEROUS_PATTERNS = js ''''"
    by (simp add: DANGEROUS_PATTERNS_def eval_regex)
  have e: "html_encode (js '''') = js ''''"
    by (rule html_encode_id) (simp add: js_def)
  show ?thesis
    unfolding sanitizeInput_fold fst_conv t w e ..
qed

lemma sanitize_ls_example:
  "fst (sanitizeInput DANGEROUS_PATTERNS (js ''<ls''))
     = \<lparr>sanitized = js ''&lt;ls'', threats = []\<rparr>"
proof -
  have t: "map name (filter (\<lambda>p. exec_search (pattern p) (js ''<ls'') \<noteq> None) DANGEROUS_PATTERNS)
      = []"
    by (simp add: DANGEROUS_PATTERNS_def eval_regex)
  have w: "foldl step (js ''<ls'') DANGEROUS_PATTERNS = js ''<ls''"
    by (simp add: DANGEROUS_PATTERNS_def eval_regex)
  have e: "html_encode (js ''<ls'') = js ''&lt;ls''"
    by (simp add: html_encode_def replace_char_concat js_def)
  show ?thesis
    unfolding sanitizeInput_fold fst_conv t w e ..
qed

lemma sanitize_entity_ls_example:
  "fst (sanitizeInput DANGEROUS_PATTERNS (js ''&lt;ls''))
     = \<lparr>sanitized = js ''&lt[BLOCKED]'', threats = [''Command Injection'']\<rparr>"
proof -
  have t: "map name (filter (\<lambda>p. exec_search (pattern p) (js ''&lt;ls'') \<noteq> None) DANGEROUS_PATTERNS)
      = [''Command Injection'']"
    by (simp add: DANGEROUS_PATTERNS_def eval_regex)
  have w: "foldl step (js ''&lt;ls'') DANGEROUS_PATTERNS = js ''&lt[BLOCKED]''"
    by (simp add: DANGEROUS_PATTERNS_def eval_regex)
  have e: "html_encode (js ''&lt[BLOCKED]'') = js ''&lt[BLOCKED]''"
    by (rule html_encode_id) (simp add: js_def)
  show ?thesis
    unfolding sanitizeInput_fold fst_conv t w e ..
qed

text \<open>
  A pattern that does not match the input is still replaced in the working copy: here the
  first replacement removes the line break that kept the Image XSS pattern from matching.
\<close>

lemma replaced_without_report_example:
  "fst (sanitizeInput DANGEROUS_PATTERNS (js (''<img <script>'' @ [CHR 0x0A] @ ''</script> onerror'')))
     = \<lparr>sanitized = js ''[BLOCKED]'', threats = [''XSS Script Tag'']\<rparr>"
proof -
  let ?input = "js (''<img <script>'' @ [CHR 0x0A] @ ''</script> onerror'')"
  have t: "map name (filter (\<lambda>p. exec_search (pattern p) ?input \<noteq> None) DANGEROUS_PATTERNS)
      = [''XSS Script Tag'']"
    by (simp add: DANGEROUS_PATTERNS_def eval_regex)
  have w: "foldl step ?input DANGEROUS_PATTERNS = js ''[BLOCKED]''"
    by (simp add: DANGEROUS_PATTERNS_def eval_regex)
  show ?thesis
    unfolding sanitizeInput_fold fst_conv t w html_encode_BLOCKED ..
qed

section \<open>Sanitizer: what one round of the loop does\<close>

subsection \<open>The replacement loop replaces all matches\<close>

lemma match_at_None_start: "match_at R s = None \<longleftrightarrow> \<not> matches_at_start R s"
  unfolding match_at_None_iff matches_at_start_def by blast

lemma exec_search_None_somewhere: "exec_search R s = None \<longleftrightarrow> \<not> matches_somewhere R s"
  by (auto simp: exec_search_None_iff matches_somewhere_def matches_at_start_def)

lemma matches_somewhere_Cons:
  "matches_somewhere R (x # xs) \<longleftrightarrow> matches_at_start R (x # xs) \<or> matches_somewhere R xs"
  using exec_search_None_somewhere [of R "x # xs"] exec_search_None_somewhere [of R xs]
    match_at_None_start [of R "x # xs"]
  by (auto split: option.splits)

lemma matches_somewhere_Nil: "matches_somewhere R [] \<longleftrightarrow> matches_at_start R []"
  by (simp add: matches_somewhere_def)

lemma replace_loop_replaces_all:
  assumes "\<not> nullable (source R)"
  shows "replaces_all R rep s (replace_loop R rep s)"
proof (induction s rule: length_induct)
  case (1 s)
  show ?case
  proof (cases "match_at R s")
    case None
    then have n: "\<not> matches_at_start R s" by (simp add: match_at_None_start)
    show ?thesis
    proof (cases s)
      case Nil
      with None n show ?thesis by (simp add: replace_loop_Nil_None ra_end)
    next
      case (Cons x xs)
      with 1 have "replaces_all R rep xs (replace_loop R rep xs)" by simp
      with None n Cons show ?thesis by (simp add: replace_loop_Cons_None ra_keep)
    qed
  next
    case (Some rest)
    from match_at_Some_suffix [OF Some] obtain m where
      s: "s = m @ rest" and m: "m \<in> lang (ignoreCase R) (source R)" by blast
    from m assms lang_nullable have ne: "m \<noteq> []" by blast
    with s have len: "length rest < length s" by simp
    with 1 have "replaces_all R rep rest (replace_loop R rep rest)" by blast
    with ne m Some s have "replaces_all R rep (m @ rest) (rep @ replace_loop R rep rest)"
      by (intro ra_replace) simp_all
    with Some len s show ?thesis by (simp add: replace_loop_Some)
  qed
qed

text \<open>
  If a match starts at the front of \<open>pre @ out\<close>, where \<open>out\<close> is the result of the
  replacement loop on \<open>s\<close>, then one starts at the front of \<open>pre @ s\<close>: provided that
  putting a match back in place of the filler never destroys a match that started before it.
\<close>

lemma replace_loop_start_reflects:
  assumes nn: "\<not> nullable (source R)"
    and stable: "\<And>pre m rest. m \<in> lang (ignoreCase R) (source R) \<Longrightarrow>
        matches_at_start R (pre @ B @ rest) \<Longrightarrow> matches_at_start R (pre @ m @ rest)"
  shows "matches_at_start R (pre @ replace_loop R B s) \<Longrightarrow> matches_at_start R (pre @ s)"
proof (induction s arbitrary: pre rule: length_induct)
  case (1 s)
  show ?case
  proof (cases "match_at R s")
    case None
    show ?thesis
    proof (cases s)
      case Nil
      with None "1.prems" show ?thesis by (simp add: replace_loop_Nil_None)
    next
      case (Cons x xs)
      with None "1.prems" have "matches_at_start R ((pre @ [x]) @ replace_loop R B xs)"
        by (simp add: replace_loop_Cons_None)
      moreover have "length xs < length s" using Cons by simp
      ultimately have "matches_at_start R ((pre @ [x]) @ xs)"
        using "1.IH" by blast
      with Cons show ?thesis by simp
    qed
  next
    case (Some rest)
    from match_at_shorter [OF nn Some] obtain m where
      s: "s = m @ rest" and len: "length rest < length s" by blast
    from match_at_Some_suffix [OF Some] s have m: "m \<in> lang (ignoreCase R) (source R)"
      by auto
    from Some len "1.prems" have "matches_at_start R ((pre @ B) @ replace_loop R B rest)"
      by (simp add: replace_loop_Some)
    with "1.IH" len have "matches_at_start R ((pre @ B) @ rest)" by blast
    then have "matches_at_start R (pre @ B @ rest)" by simp
    from stable [OF m this] s show ?thesis by simp
  qed
qed

lemma replace_loop_leaves_no_match:
  assumes nn: "\<not> nullable (source R)"
    and stable: "\<And>pre m rest. m \<in> lang (ignoreCase R) (source R) \<Longrightarrow>
        matches_at_start R (pre @ B @ rest) \<Longrightarrow> matches_at_start R (pre @ m @ rest)"
    and inside: "\<And>b c t. B = c @ b \<Longrightarrow> b \<noteq> [] \<Longrightarrow> \<not> matches_at_start R (b @ t)"
  shows "\<not> matches_somewhere R (replace_loop R B s)"
proof (induction s rule: length_induct)
  case (1 s)
  show ?case
  proof (cases "match_at R s")
    case None
    show ?thesis
    proof (cases s)
      case Nil
      with None show ?thesis
        by (simp add: replace_loop_Nil_None matches_somewhere_Nil match_at_None_start)
    next
      case (Cons x xs)
      with 1 have ih: "\<not> matches_somewhere R (replace_loop R B xs)" by simp
      have "\<not> matches_at_start R (x # replace_loop R B xs)"
      proof
        assume "matches_at_start R (x # replace_loop R B xs)"
        then have "matches_at_start R ([x] @ replace_loop R B xs)" by simp
        from replace_loop_start_reflects [OF nn stable this]
        have "matches_at_start R s" using Cons by simp
        with None show False by (simp add: match_at_None_start)
      qed
      with ih None Cons show ?thesis
        by (simp add: replace_loop_Cons_None matches_somewhere_Cons)
    qed
  next
    case (Some rest)
    from match_at_shorter [OF nn Some] obtain m where
      s: "s = m @ rest" and len: "length rest < length s" by blast
    with 1 have ih: "\<not> matches_somewhere R (replace_loop R B rest)" by blast
    have "\<not> matches_somewhere R (b @ replace_loop R B rest)" if "B = c @ b" for b c
      using that
    proof (induction b arbitrary: c)
      case Nil
      with ih show ?case by simp
    next
      case (Cons y ys)
      from Cons.prems have "B = (c @ [y]) @ ys" by simp
      from Cons.IH [OF this] have "\<not> matches_somewhere R (ys @ replace_loop R B rest)" .
      moreover from inside [OF Cons.prems]
      have "\<not> matches_at_start R ((y # ys) @ replace_loop R B rest)" by simp
      ultimately show ?case by (simp add: matches_somewhere_Cons)
    qed
    from this [of "[]" B] Some len show ?thesis
      by (simp add: replace_loop_Some)
  qed
qed

subsection \<open>No match is left behind\<close>

text \<open>
  For the patterns whose atoms match neither bracket of the placeholder, a match in the
  result would lie between two placeholders or inside one.
\<close>

lemma bracket_free_no_match_left:
  assumes nn: "\<not> nullable (source R)"
    and av: "\<forall>a \<in> set (atoms (source R)). \<forall>d \<in> set (js ''[]''). \<not> atom_matches (ignoreCase R) a d"
    and mid: "exec_search R (js ''BLOCKED'') = None"
  shows "\<not> matches_somewhere R (replace_loop R BLOCKED s)"
proof -
  let ?L = "lang (ignoreCase R) (source R)"
  from nn have e: "[] \<notin> ?L"
    using lang_nullable by blast
  have d: "\<forall>u \<in> ?L. d \<notin> set u" if "d \<in> {91, 93}" for d
  proof
    fix u assume u: "u \<in> ?L"
    from av that have "\<forall>a \<in> set (atoms (source R)). \<not> atom_matches (ignoreCase R) a d"
      by (auto simp: js_def)
    with u show "d \<notin> set u" by (rule lang_avoids)
  qed
  have m: "no_factor ?L (js ''BLOCKED'')"
    using mid by (simp add: exec_search_no_factor)
  have "no_factor ?L ([] @ replace_loop R (91 # js ''BLOCKED'' @ [93]) s)"
    using nn e d [of 91] d [of 93] m
    by (rule replace_loop_no_factor) (auto simp: match_at_None_iff)
  then show ?thesis
    by (simp add: fillers(1) exec_search_no_factor [symmetric] exec_search_None_somewhere)
qed

lemma shaped_stable:
  assumes L: "\<And>u. u \<in> lang (ignoreCase R) (source R) \<longleftrightarrow>
                (\<exists>h X t. u = h @ X @ t \<and> h \<in> Hd \<and> X \<in> Mid \<and> t \<in> Tl)"
    and hd: "\<And>h. h \<in> Hd \<Longrightarrow> 91 \<notin> set h"
    and tl: "\<And>t. t \<in> Tl \<Longrightarrow> t \<noteq> [] \<and> 93 \<notin> set t \<and> last t \<notin> set (91 # js ''BLOCKED'')"
    and mid: "\<And>X1 X2 m. X1 @ BLOCKED @ X2 \<in> Mid \<Longrightarrow> m \<in> lang (ignoreCase R) (source R)
                \<Longrightarrow> X1 @ m @ X2 \<in> Mid"
    and m: "m \<in> lang (ignoreCase R) (source R)"
    and start: "matches_at_start R (pre @ BLOCKED @ rest)"
  shows "matches_at_start R (pre @ m @ rest)"
proof -
  let ?L = "lang (ignoreCase R) (source R)"
  from start obtain u v where e: "pre @ BLOCKED @ rest = u @ v" and u: "u \<in> ?L"
    by (auto simp: matches_at_start_def)
  from u L obtain h X t where hXt: "u = h @ X @ t" "h \<in> Hd" "X \<in> Mid" "t \<in> Tl"
    by blast
  have split1: "(\<exists>z. pre = u @ z) \<or> (\<exists>c. c \<noteq> [] \<and> u = pre @ c \<and> BLOCKED @ rest = c @ v)"
  proof (cases "length u \<le> length pre")
    case True
    with e have "pre = u @ drop (length u) pre"
      by (auto simp: append_eq_append_conv_if split: if_splits)
         (metis append_take_drop_id)
    then show ?thesis by blast
  next
    case False
    with e have "pre = take (length pre) u" and c: "BLOCKED @ rest = drop (length pre) u @ v"
      by (auto simp: append_eq_append_conv_if split: if_splits)
    then have "u = pre @ drop (length pre) u"
      by (metis append_take_drop_id)
    moreover from False have "drop (length pre) u \<noteq> []" by simp
    ultimately show ?thesis using c by blast
  qed
  then consider z where "pre = u @ z"
    | c where "c \<noteq> []" "u = pre @ c" "BLOCKED @ rest = c @ v"
    by blast
  then show ?thesis
  proof cases
    case 1
    then have "pre @ m @ rest = u @ (z @ m @ rest)" by simp
    with u show ?thesis unfolding matches_at_start_def by blast
  next
    case 2
    have split2: "(\<exists>d. d \<noteq> [] \<and> BLOCKED = c @ d) \<or> (\<exists>r1. c = BLOCKED @ r1 \<and> rest = r1 @ v)"
    proof (cases "length c < length BLOCKED")
      case True
      with 2(3) have "c = take (length c) BLOCKED"
        by (auto simp: append_eq_append_conv_if split: if_splits)
      then have "BLOCKED = c @ drop (length c) BLOCKED"
        by (metis append_take_drop_id)
      moreover from True have "drop (length c) BLOCKED \<noteq> []" by simp
      ultimately show ?thesis by blast
    next
      case False
      with 2(3) have "BLOCKED = take (length BLOCKED) c"
        and "rest = drop (length BLOCKED) c @ v"
        by (auto simp: append_eq_append_conv_if split: if_splits)
      moreover from this(1) have "c = BLOCKED @ drop (length BLOCKED) c"
        by (metis append_take_drop_id)
      ultimately show ?thesis by blast
    qed
    then consider d where "d \<noteq> []" "BLOCKED = c @ d"
      | r1 where "c = BLOCKED @ r1" "rest = r1 @ v"
      by blast
    then show ?thesis
    proof cases
      case 1
      from 1(1) have "butlast (c @ d) = c @ butlast d" by (simp add: butlast_append)
      then have "butlast BLOCKED = c @ butlast d" unfolding 1(2) [symmetric] .
      with 2(1) have "last c \<in> set (butlast BLOCKED)" by simp
      then have "last c \<in> set (91 # js ''BLOCKED'')" by (simp add: fillers(1) butlast_append)
      moreover from hXt tl have "last u = last t" by simp
      moreover from 2 have "last u = last c" by simp
      ultimately show ?thesis using tl [OF hXt(4)] by simp
    next
      case c: 2
      with 2 hXt have eq: "pre @ 91 # (js ''BLOCKED'' @ 93 # r1) = h @ X @ t"
        by (simp add: fillers(1))
      let ?W = "js ''BLOCKED'' @ 93 # r1"
      have hp: "length h \<le> length pre"
      proof (rule ccontr)
        assume "\<not> length h \<le> length pre"
        with eq have "91 # ?W = drop (length pre) h @ X @ t" and "drop (length pre) h \<noteq> []"
          by (auto simp: append_eq_append_conv_if split: if_splits)
        then have "hd (drop (length pre) h) = 91"
          by (cases "drop (length pre) h") auto
        with \<open>drop (length pre) h \<noteq> []\<close> have "91 \<in> set (drop (length pre) h)"
          by (metis hd_in_set)
        then have "91 \<in> set h" by (rule in_set_dropD)
        with hd [OF hXt(2)] show False by simp
      qed
      define X1 where "X1 = drop (length h) pre"
      from eq [symmetric] hp have "h = take (length h) pre" and eq2: "X @ t = X1 @ 91 # ?W"
        unfolding X1_def by (auto simp: append_eq_append_conv_if split: if_splits)
      then have pre: "pre = h @ X1"
        unfolding X1_def by (metis append_take_drop_id)
      define A where "A = X1 @ 91 # js ''BLOCKED''"
      from eq2 have eq3: "A @ 93 # r1 = X @ t" by (simp add: A_def)
      have ax: "length A < length X"
      proof (rule ccontr)
        assume n: "\<not> length A < length X"
        show False
        proof (cases "length A = length X")
          case True
          with eq3 have "t = 93 # r1" by simp
          with tl [OF hXt(4)] show False by simp
        next
          case False
          with n eq3 have "drop (length X) A @ 93 # r1 = t"
            by (auto simp: append_eq_append_conv_if split: if_splits)
          then have "93 \<in> set t" by auto
          with tl [OF hXt(4)] show False by simp
        qed
      qed
      with eq3 have A: "A = take (length A) X" and d: "93 # r1 = drop (length A) X @ t"
        by (auto simp: append_eq_append_conv_if split: if_splits)
      from ax have "drop (length A) X \<noteq> []" by simp
      with d obtain X2 where dx: "drop (length A) X = 93 # X2" and r1: "r1 = X2 @ t"
        by (cases "drop (length A) X") auto
      from A dx have "X = A @ 93 # X2"
        by (metis append_take_drop_id)
      then have X: "X = X1 @ 91 # js ''BLOCKED'' @ 93 # X2"
        by (simp add: A_def)
      from X have "X = X1 @ BLOCKED @ X2" by (simp add: fillers(1))
      with hXt(3) mid m have "X1 @ m @ X2 \<in> Mid" by blast
      with hXt L have "h @ (X1 @ m @ X2) @ t \<in> ?L" by blast
      moreover have "pre @ m @ rest = (h @ (X1 @ m @ X2) @ t) @ v"
        using pre r1 c by simp
      ultimately show ?thesis unfolding matches_at_start_def by blast
    qed
  qed
qed

text \<open>
  The script and image patterns have a fixed head, a free middle and a fixed tail. Their
  languages in that form:
\<close>

lemma kleene_atom: "kleene {[x] | x. P x} = {w. \<forall>x \<in> set w. P x}"
proof (intro set_eqI iffI)
  fix w assume "w \<in> kleene {[x] | x. P x}"
  then show "w \<in> {w. \<forall>x \<in> set w. P x}"
    by (induction rule: kleene.induct) auto
next
  fix w assume "w \<in> {w. \<forall>x \<in> set w. P x}"
  then show "w \<in> kleene {[x] | x. P x}"
  proof (induction w)
    case Nil
    show ?case by (rule kleene_Nil)
  next
    case (Cons x xs)
    then have "[x] \<in> {[x] | x. P x}" and "xs \<in> kleene {[x] | x. P x}" by auto
    then have "[x] @ xs \<in> kleene {[x] | x. P x}" by (rule kleene_app)
    then show ?case by simp
  qed
qed

lemma lang_Seq_iff:
  "u \<in> lang ic (Seq r1 r2) \<longleftrightarrow> (\<exists>a b. u = a @ b \<and> a \<in> lang ic r1 \<and> b \<in> lang ic r2)"
  by auto

lemma lang_str:
  "lang ic (str cs) = {w. list_all2 (\<lambda>c x. canonicalize ic (of_char c) = canonicalize ic x) cs w}"
proof (induction cs)
  case Nil
  show ?case by simp
next
  case (Cons c cs)
  show ?case
  proof (intro set_eqI iffI)
    fix w assume "w \<in> lang ic (str (c # cs))"
    then obtain x v where "w = x # v" "canonicalize ic (of_char c) = canonicalize ic x"
      "v \<in> lang ic (str cs)"
      by (auto simp: chr_def)
    with Cons show "w \<in> {w. list_all2 (\<lambda>c x. canonicalize ic (of_char c) = canonicalize ic x) (c # cs) w}"
      by simp
  next
    fix w assume "w \<in> {w. list_all2 (\<lambda>c x. canonicalize ic (of_char c) = canonicalize ic x) (c # cs) w}"
    then obtain x v where w: "w = x # v" and x: "canonicalize ic (of_char c) = canonicalize ic x"
      and v: "list_all2 (\<lambda>c x. canonicalize ic (of_char c) = canonicalize ic x) cs v"
      by (auto simp: list_all2_Cons1)
    from x have "[x] \<in> lang ic (chr c)" by (simp add: chr_def)
    moreover from v Cons have "v \<in> lang ic (str cs)" by simp
    ultimately have "[x] @ v \<in> lang ic (Seq (chr c) (str cs))"
      unfolding lang_Seq_iff by blast
    with w show "w \<in> lang ic (str (c # cs))" by simp
  qed
qed

lemma lang_star_any: "lang ic (LazyStar (Atom AnyChar)) = UNIV"
proof -
  have "lang ic (LazyStar (Atom AnyChar)) = kleene {[x] | x. True}" by simp
  also have "\<dots> = {w. \<forall>x \<in> set w. True}" by (rule kleene_atom)
  finally show ?thesis by simp
qed

lemma lang_star_dot:
  "lang ic (Star (Atom Dot)) = {w. \<forall>x \<in> set w. \<not> is_line_terminator x}"
proof -
  have "lang ic (Star (Atom Dot)) = kleene {[x] | x. \<not> is_line_terminator x}" by simp
  also have "\<dots> = {w. \<forall>x \<in> set w. \<not> is_line_terminator x}" by (rule kleene_atom)
  finally show ?thesis .
qed

lemma lang_seqs_Nil: "u \<in> lang ic (seqs []) \<longleftrightarrow> u = []"
  by simp

lemma lang_seqs_Cons:
  "u \<in> lang ic (seqs (r # rs)) \<longleftrightarrow> (\<exists>a b. u = a @ b \<and> a \<in> lang ic r \<and> b \<in> lang ic (seqs rs))"
  by auto

lemma lang_lit_gt: "c \<in> lang ic (Atom (Lit 62)) \<longleftrightarrow> c = [62]"
  by (auto simp: canonicalize_def split: if_splits)

lemma lang_any_gt_any:
  "u \<in> lang ic (seqs [rh, LazyStar (Atom AnyChar), Atom (Lit 62), LazyStar (Atom AnyChar), rt])
   \<longleftrightarrow> (\<exists>h X t. u = h @ X @ t \<and> h \<in> lang ic rh \<and> X \<in> {X. 62 \<in> set X} \<and> t \<in> lang ic rt)"
  (is "?l \<longleftrightarrow> ?r")
proof
  assume ?l
  then obtain h v1 where 1: "u = h @ v1" "h \<in> lang ic rh"
    and "v1 \<in> lang ic (seqs [LazyStar (Atom AnyChar), Atom (Lit 62), LazyStar (Atom AnyChar), rt])"
    unfolding lang_seqs_Cons [of u] by blast
  then obtain x v2 where 2: "v1 = x @ v2"
    and "v2 \<in> lang ic (seqs [Atom (Lit 62), LazyStar (Atom AnyChar), rt])"
    unfolding lang_seqs_Cons [of v1] by blast
  then obtain g v3 where 3: "v2 = g @ v3" "g \<in> lang ic (Atom (Lit 62))"
    and "v3 \<in> lang ic (seqs [LazyStar (Atom AnyChar), rt])"
    unfolding lang_seqs_Cons [of v2] by blast
  then obtain y v4 where 4: "v3 = y @ v4" and "v4 \<in> lang ic (seqs [rt])"
    unfolding lang_seqs_Cons [of v3] by blast
  then obtain t v5 where 5: "v4 = t @ v5" "t \<in> lang ic rt" and "v5 \<in> lang ic (seqs [])"
    unfolding lang_seqs_Cons [of v4] by blast
  then have 6: "v5 = []" by simp
  from 3(2) have g: "g = [62]" by (simp only: lang_lit_gt)
  from 1 2 3 4 5 6 g have "u = h @ (x @ 62 # y) @ t" by simp
  moreover have "x @ 62 # y \<in> {X. 62 \<in> set X}" by simp
  ultimately show ?r using 1(2) 5(2) by blast
next
  assume ?r
  then obtain h X t where u: "u = h @ X @ t" and h: "h \<in> lang ic rh"
    and X: "62 \<in> set X" and t: "t \<in> lang ic rt" by blast
  from X obtain x y where Xs: "X = x @ 62 # y" by (auto dest: split_list)
  have "[] \<in> lang ic (seqs [])" by simp
  with t have "t @ [] \<in> lang ic (seqs [rt])"
    unfolding lang_seqs_Cons [of "t @ []"] by blast
  moreover have "y \<in> lang ic (LazyStar (Atom AnyChar))" by (simp only: lang_star_any UNIV_I)
  ultimately have "y @ t @ [] \<in> lang ic (seqs [LazyStar (Atom AnyChar), rt])"
    unfolding lang_seqs_Cons [of "y @ t @ []"] by blast
  moreover have "[62] \<in> lang ic (Atom (Lit 62))" by (simp only: lang_lit_gt)
  ultimately have "[62] @ y @ t @ [] \<in> lang ic (seqs [Atom (Lit 62), LazyStar (Atom AnyChar), rt])"
    unfolding lang_seqs_Cons [of "[62] @ y @ t @ []"] by blast
  moreover have "x \<in> lang ic (LazyStar (Atom AnyChar))" by (simp only: lang_star_any UNIV_I)
  ultimately have "x @ [62] @ y @ t @ []
      \<in> lang ic (seqs [LazyStar (Atom AnyChar), Atom (Lit 62), LazyStar (Atom AnyChar), rt])"
    unfolding lang_seqs_Cons [of "x @ [62] @ y @ t @ []"] by blast
  with h have "h @ x @ [62] @ y @ t @ []
      \<in> lang ic (seqs [rh, LazyStar (Atom AnyChar), Atom (Lit 62), LazyStar (Atom AnyChar), rt])"
    unfolding lang_seqs_Cons [of "h @ x @ [62] @ y @ t @ []"] by blast
  with u Xs show ?l by simp
qed

lemma lang_dots:
  "u \<in> lang ic (seqs [rh, Star (Atom Dot), rt])
   \<longleftrightarrow> (\<exists>h X t. u = h @ X @ t \<and> h \<in> lang ic rh
          \<and> X \<in> {X. \<forall>x \<in> set X. \<not> is_line_terminator x} \<and> t \<in> lang ic rt)"
  (is "?l \<longleftrightarrow> ?r")
proof
  assume ?l
  then obtain h v1 where 1: "u = h @ v1" "h \<in> lang ic rh"
    and "v1 \<in> lang ic (seqs [Star (Atom Dot), rt])"
    unfolding lang_seqs_Cons [of u] by blast
  then obtain X v2 where 2: "v1 = X @ v2" "X \<in> lang ic (Star (Atom Dot))"
    and "v2 \<in> lang ic (seqs [rt])"
    unfolding lang_seqs_Cons [of v1] by blast
  then obtain t v3 where 3: "v2 = t @ v3" "t \<in> lang ic rt" and "v3 \<in> lang ic (seqs [])"
    unfolding lang_seqs_Cons [of v2] by blast
  then have 4: "v3 = []" by simp
  from 1 2 3 4 have "u = h @ X @ t" by simp
  moreover from 2(2) have "X \<in> {X. \<forall>x \<in> set X. \<not> is_line_terminator x}"
    by (simp only: lang_star_dot)
  ultimately show ?r using 1(2) 3(2) by blast
next
  assume ?r
  then obtain h X t where u: "u = h @ X @ t" and h: "h \<in> lang ic rh"
    and X: "X \<in> {X. \<forall>x \<in> set X. \<not> is_line_terminator x}" and t: "t \<in> lang ic rt" by blast
  have "[] \<in> lang ic (seqs [])" by simp
  with t have "t @ [] \<in> lang ic (seqs [rt])"
    unfolding lang_seqs_Cons [of "t @ []"] by blast
  moreover from X have "X \<in> lang ic (Star (Atom Dot))" by (simp only: lang_star_dot)
  ultimately have "X @ t @ [] \<in> lang ic (seqs [Star (Atom Dot), rt])"
    unfolding lang_seqs_Cons [of "X @ t @ []"] by blast
  with h have "h @ X @ t @ [] \<in> lang ic (seqs [rh, Star (Atom Dot), rt])"
    unfolding lang_seqs_Cons [of "h @ X @ t @ []"] by blast
  with u show ?l by simp
qed

lemma list_all2_ends:
  assumes "list_all2 P cs w" and "cs \<noteq> []"
  shows "w \<noteq> [] \<and> P (hd cs) (hd w) \<and> P (last cs) (last w)"
proof -
  from assms have w: "w \<noteq> []" by auto
  from assms w have "P (hd cs) (hd w)"
    by (cases cs; cases w) auto
  moreover from assms have "list_all2 P (rev cs) (rev w)" by simp
  with assms(2) w have "P (hd (rev cs)) (hd (rev w))"
    by (cases "rev cs"; cases "rev w") auto
  with assms(2) w have "P (last cs) (last w)" by (simp add: hd_rev)
  ultimately show ?thesis using w by simp
qed

lemma str_lang_ends:
  assumes "w \<in> lang ic (str cs)" and "cs \<noteq> []"
  shows "w \<noteq> []"
    and "canonicalize ic (of_char (hd cs)) = canonicalize ic (hd w)"
    and "canonicalize ic (of_char (last cs)) = canonicalize ic (last w)"
  using list_all2_ends [of "\<lambda>c x. canonicalize ic (of_char c) = canonicalize ic x" cs w] assms
  by (simp_all add: lang_str)

lemma shaped_no_match_left:
  assumes nn: "\<not> nullable (source R)"
    and L: "\<And>u. u \<in> lang (ignoreCase R) (source R) \<longleftrightarrow>
              (\<exists>h X t. u = h @ X @ t \<and> h \<in> lang (ignoreCase R) (str hs) \<and> X \<in> Mid
                 \<and> t \<in> lang (ignoreCase R) (str ts))"
    and hs: "hs \<noteq> []" "of_char (hd hs) = (60 :: code_unit)"
      "\<forall>a \<in> set (atoms (str hs)). \<not> atom_matches (ignoreCase R) a 91"
    and ts: "ts \<noteq> []" "\<forall>a \<in> set (atoms (str ts)). \<not> atom_matches (ignoreCase R) a 93"
      "\<And>x. canonicalize (ignoreCase R) (of_char (last ts)) = canonicalize (ignoreCase R) x
          \<Longrightarrow> x \<notin> set (91 # js ''BLOCKED'')"
    and mid: "\<And>X1 X2 m. X1 @ BLOCKED @ X2 \<in> Mid \<Longrightarrow> m \<in> lang (ignoreCase R) (source R)
                \<Longrightarrow> X1 @ m @ X2 \<in> Mid"
  shows "\<not> matches_somewhere R (replace_loop R BLOCKED s)"
proof (rule replace_loop_leaves_no_match [OF nn])
  fix pre m rest
  assume m: "m \<in> lang (ignoreCase R) (source R)"
    and st: "matches_at_start R (pre @ BLOCKED @ rest)"
  show "matches_at_start R (pre @ m @ rest)"
  proof (rule shaped_stable [OF L _ _ mid m st])
    fix h assume "h \<in> lang (ignoreCase R) (str hs)"
    then show "91 \<notin> set h" using hs(3) by (rule lang_avoids)
  next
    fix t assume t: "t \<in> lang (ignoreCase R) (str ts)"
    from str_lang_ends [OF t ts(1)] ts(3) have "t \<noteq> []" "last t \<notin> set (91 # js ''BLOCKED'')"
      by blast+
    moreover from t ts(2) have "93 \<notin> set t" by (rule lang_avoids)
    ultimately show "t \<noteq> [] \<and> 93 \<notin> set t \<and> last t \<notin> set (91 # js ''BLOCKED'')" by simp
  qed
next
  fix b c t
  assume B: "BLOCKED = c @ b" and b: "b \<noteq> []"
  show "\<not> matches_at_start R (b @ t)"
  proof
    assume "matches_at_start R (b @ t)"
    then obtain u v where e: "b @ t = u @ v" and u: "u \<in> lang (ignoreCase R) (source R)"
      by (auto simp: matches_at_start_def)
    from u L obtain h X t' where u': "u = h @ X @ t'" and h: "h \<in> lang (ignoreCase R) (str hs)"
      by blast
    from str_lang_ends(1,2) [OF h hs(1)] hs(2) have hne: "h \<noteq> []"
      and c: "canonicalize (ignoreCase R) 60 = canonicalize (ignoreCase R) (hd h)" by simp_all
    from c have "hd h = 60" by (rule canonicalize_lt)
    with hne u' have "hd u = 60" "u \<noteq> []" by simp_all
    with e b have "hd b = 60" by (cases b; cases u) auto
    with b have "60 \<in> set b" by (metis hd_in_set)
    then have "60 \<in> set (c @ b)" by simp
    then have "60 \<in> set BLOCKED" unfolding B [symmetric] .
    then show False by (simp add: BLOCKED_def js_def)
  qed
qed

lemma script_no_match_left:
  "\<not> matches_somewhere
       (regexp_literal (seqs [str ''<script'', LazyStar (Atom AnyChar), chr CHR ''>'',
                              LazyStar (Atom AnyChar), str ''</script>'']) True)
       (replace_loop
         (regexp_literal (seqs [str ''<script'', LazyStar (Atom AnyChar), chr CHR ''>'',
                                LazyStar (Atom AnyChar), str ''</script>'']) True) BLOCKED s)"
proof -
  define R where "R = regexp_literal (seqs [str ''<script'', LazyStar (Atom AnyChar), chr CHR ''>'',
                              LazyStar (Atom AnyChar), str ''</script>'']) True"
  have ic: "ignoreCase R = True"
    by (simp add: R_def regexp_literal_def)
  have src: "source R = seqs [str ''<script'', LazyStar (Atom AnyChar), Atom (Lit 62),
                              LazyStar (Atom AnyChar), str ''</script>'']"
    by (simp add: R_def regexp_literal_def chr_def)
  have nn: "\<not> nullable (source R)"
    by (simp add: R_def regexp_literal_def chr_def)
  have L: "u \<in> lang (ignoreCase R) (source R) \<longleftrightarrow>
      (\<exists>h X t. u = h @ X @ t \<and> h \<in> lang (ignoreCase R) (str ''<script'') \<and> X \<in> {X. 62 \<in> set X}
         \<and> t \<in> lang (ignoreCase R) (str ''</script>''))" for u
    unfolding src by (rule lang_any_gt_any)
  have "\<not> matches_somewhere R (replace_loop R BLOCKED s)"
  proof (rule shaped_no_match_left [OF nn L])
    show "''<script'' \<noteq> []" by simp
    show "of_char (hd ''<script'') = (60 :: code_unit)" by simp
    show "\<forall>a \<in> set (atoms (str ''<script'')). \<not> atom_matches (ignoreCase R) a 91"
      by (simp add: ic chr_def canonicalize_def)
    show "''</script>'' \<noteq> []" by simp
    show "\<forall>a \<in> set (atoms (str ''</script>'')). \<not> atom_matches (ignoreCase R) a 93"
      by (simp add: ic chr_def canonicalize_def)
    show "x \<notin> set (91 # js ''BLOCKED'')"
      if "canonicalize (ignoreCase R) (of_char (last ''</script>'')) = canonicalize (ignoreCase R) x"
      for x
      using that by (auto simp: ic canonicalize_def js_def split: if_splits)
    show "X1 @ m @ X2 \<in> {X. 62 \<in> set X}" if "X1 @ BLOCKED @ X2 \<in> {X. 62 \<in> set X}" for X1 X2 m
      using that by (auto simp: BLOCKED_def js_def)
  qed
  then show ?thesis unfolding R_def .
qed

lemma img_no_match_left:
  "\<not> matches_somewhere
       (regexp_literal (seqs [str ''<img'', Star (Atom Dot), str ''onerror'']) True)
       (replace_loop
         (regexp_literal (seqs [str ''<img'', Star (Atom Dot), str ''onerror'']) True) BLOCKED s)"
proof -
  define R where "R = regexp_literal (seqs [str ''<img'', Star (Atom Dot), str ''onerror'']) True"
  have ic: "ignoreCase R = True"
    by (simp add: R_def regexp_literal_def)
  have src: "source R = seqs [str ''<img'', Star (Atom Dot), str ''onerror'']"
    by (simp add: R_def regexp_literal_def)
  have nn: "\<not> nullable (source R)"
    by (simp add: R_def regexp_literal_def chr_def)
  have L: "u \<in> lang (ignoreCase R) (source R) \<longleftrightarrow>
      (\<exists>h X t. u = h @ X @ t \<and> h \<in> lang (ignoreCase R) (str ''<img'')
         \<and> X \<in> {X. \<forall>x \<in> set X. \<not> is_line_terminator x}
         \<and> t \<in> lang (ignoreCase R) (str ''onerror''))" for u
    unfolding src by (rule lang_dots)
  have av: "\<forall>a \<in> set (atoms (source R)). \<not> atom_matches (ignoreCase R) a d"
    if "is_line_terminator d" for d
    using that
    by (auto simp: R_def regexp_literal_def chr_def canonicalize_def is_line_terminator_def)
  have "\<not> matches_somewhere R (replace_loop R BLOCKED s)"
  proof (rule shaped_no_match_left [OF nn L])
    show "''<img'' \<noteq> []" by simp
    show "of_char (hd ''<img'') = (60 :: code_unit)" by simp
    show "\<forall>a \<in> set (atoms (str ''<img'')). \<not> atom_matches (ignoreCase R) a 91"
      by (simp add: ic chr_def canonicalize_def)
    show "''onerror'' \<noteq> []" by simp
    show "\<forall>a \<in> set (atoms (str ''onerror'')). \<not> atom_matches (ignoreCase R) a 93"
      by (simp add: ic chr_def canonicalize_def)
    show "x \<notin> set (91 # js ''BLOCKED'')"
      if "canonicalize (ignoreCase R) (of_char (last ''onerror'')) = canonicalize (ignoreCase R) x"
      for x
      using that by (auto simp: ic canonicalize_def js_def split: if_splits)
    show "X1 @ m @ X2 \<in> {X. \<forall>x \<in> set X. \<not> is_line_terminator x}"
      if X: "X1 @ BLOCKED @ X2 \<in> {X. \<forall>x \<in> set X. \<not> is_line_terminator x}"
        and m: "m \<in> lang (ignoreCase R) (source R)" for X1 X2 m
    proof -
      have "\<not> is_line_terminator x" if "x \<in> set m" for x
      proof
        assume "is_line_terminator x"
        from lang_avoids [OF m av [OF this]] that show False by simp
      qed
      with X show ?thesis by auto
    qed
  qed
  then show ?thesis unfolding R_def .
qed

lemma patterns_shapes:
  "p \<in> set DANGEROUS_PATTERNS \<Longrightarrow>
     (\<not> nullable (source (pattern p)) \<and>
      (\<forall>a \<in> set (atoms (source (pattern p))). \<forall>d \<in> set (js ''[]'').
          \<not> atom_matches (ignoreCase (pattern p)) a d) \<and>
      exec_search (pattern p) (js ''BLOCKED'') = None) \<or>
     pattern p = regexp_literal (seqs [str ''<script'', LazyStar (Atom AnyChar), chr CHR ''>'',
                              LazyStar (Atom AnyChar), str ''</script>'']) True \<or>
     pattern p = regexp_literal (seqs [str ''<img'', Star (Atom Dot), str ''onerror'']) True"
  by (auto simp: DANGEROUS_PATTERNS_def regexp_literal_def chr_def Plus_def js_def
      match_at_def canonicalize_def is_space_def is_word_char_def is_digit_def)

lemma no_match_left:
  assumes "p \<in> set DANGEROUS_PATTERNS"
  shows "\<not> matches_somewhere (pattern p) (replace_loop (pattern p) BLOCKED s)"
  using patterns_shapes [OF assms]
  by (elim disjE conjE)
    (simp_all only: bracket_free_no_match_left script_no_match_left img_no_match_left not_False_eq_True)

subsection \<open>The working copies of a call\<close>

lemma html_encode_entity: "html_encode s = concat (map entity s)"
proof -
  have app: "replace_char x r (a @ b) = replace_char x r a @ replace_char x r b" for x r a b
    by (simp add: replace_char_concat)
  have one: "html_encode [c] = entity c" for c
    by (simp add: html_encode_def replace_char_concat entity_def js_def)
  have "html_encode (a @ b) = html_encode a @ html_encode b" for a b
    by (simp add: html_encode_def app)
  then have "html_encode (c # s) = entity c @ html_encode s" for c s
    using one [of c] by (metis append_Cons append_Nil)
  moreover have "html_encode [] = []"
    by (simp add: html_encode_def replace_char_concat)
  ultimately show ?thesis
    by (induction s) simp_all
qed

lemma replaces_all_functional:
  assumes "replaces_all R rep s out"
  shows "out = replace_loop R rep s"
  using assms
proof (induction rule: replaces_all.induct)
  case ra_end
  then show ?case by (simp add: replace_loop_Nil_None match_at_None_start)
next
  case (ra_keep x xs out)
  then show ?case by (simp add: replace_loop_Cons_None match_at_None_start)
next
  case (ra_replace m rest out)
  then show ?case by (simp add: replace_loop_Some)
qed

lemma working_copies:
  "\<exists>ws. length ws = Suc (length DANGEROUS_PATTERNS) \<and> ws ! 0 = input \<and>
        (\<forall>k < length DANGEROUS_PATTERNS.
            replaces_all (pattern (DANGEROUS_PATTERNS ! k)) BLOCKED (ws ! k) (ws ! Suc k) \<and>
            \<not> matches_somewhere (pattern (DANGEROUS_PATTERNS ! k)) (ws ! Suc k)) \<and>
        last ws = foldl step input DANGEROUS_PATTERNS"
proof -
  let ?n = "length DANGEROUS_PATTERNS"
  define ws where "ws = map (\<lambda>k. foldl step input (take k DANGEROUS_PATTERNS)) [0..<Suc ?n]"
  have len: "length ws = Suc ?n" by (simp add: ws_def)
  have nth: "ws ! k = foldl step input (take k DANGEROUS_PATTERNS)" if "k \<le> ?n" for k
  proof -
    from that have "k < length [0..<Suc ?n]" by simp
    then have "ws ! k = foldl step input (take ([0..<Suc ?n] ! k) DANGEROUS_PATTERNS)"
      unfolding ws_def by (rule nth_map)
    also from that have "[0..<Suc ?n] ! k = k"
      by (metis add_0 le_imp_less_Suc nth_upt)
    finally show ?thesis .
  qed
  have zero: "ws ! 0 = input" by (simp add: nth)
  have rounds: "replaces_all (pattern (DANGEROUS_PATTERNS ! k)) BLOCKED (ws ! k) (ws ! Suc k) \<and>
      \<not> matches_somewhere (pattern (DANGEROUS_PATTERNS ! k)) (ws ! Suc k)" if "k < ?n" for k
  proof -
    from that have mem: "DANGEROUS_PATTERNS ! k \<in> set DANGEROUS_PATTERNS" by simp
    from that have "ws ! Suc k = step (ws ! k) (DANGEROUS_PATTERNS ! k)"
      by (simp add: nth take_Suc_conv_app_nth)
    moreover have "replaces_all (pattern (DANGEROUS_PATTERNS ! k)) BLOCKED (ws ! k)
        (step (ws ! k) (DANGEROUS_PATTERNS ! k))"
      using patterns_not_nullable [OF mem] by (rule replace_loop_replaces_all)
    moreover have "\<not> matches_somewhere (pattern (DANGEROUS_PATTERNS ! k))
        (step (ws ! k) (DANGEROUS_PATTERNS ! k))"
      using mem by (rule no_match_left)
    ultimately show ?thesis by simp
  qed
  have "last ws = ws ! ?n"
    using len by (metis diff_Suc_1 last_conv_nth length_0_conv nat.distinct(1))
  then have last: "last ws = foldl step input DANGEROUS_PATTERNS" by (simp add: nth)
  from len zero rounds last show ?thesis by blast
qed

lemma sanitize_path_example:
  "fst (sanitizeInput DANGEROUS_PATTERNS (js ''hello ../ world''))
     = \<lparr>sanitized = js ''hello [BLOCKED] world'', threats = [''Path Traversal'']\<rparr>"
proof -
  let ?input = "js ''hello ../ world''"
  have t: "map name (filter (\<lambda>p. exec_search (pattern p) ?input \<noteq> None) DANGEROUS_PATTERNS)
      = [''Path Traversal'']"
    by (simp add: DANGEROUS_PATTERNS_def eval_regex)
  have w: "foldl step ?input DANGEROUS_PATTERNS = js ''hello [BLOCKED] world''"
    by (simp add: DANGEROUS_PATTERNS_def eval_regex)
  have e: "html_encode (js ''hello [BLOCKED] world'') = js ''hello [BLOCKED] world''"
    by (rule html_encode_id) (simp add: js_def)
  show ?thesis
    unfolding sanitizeInput_fold fst_conv t w e ..
qed

lemma sanitize_passwd_example:
  "fst (sanitizeInput DANGEROUS_PATTERNS (js ''../../../etc/passwd''))
     = \<lparr>sanitized = js ''[BLOCKED][BLOCKED][BLOCKED]etc/passwd'', threats = [''Path Traversal'']\<rparr>"
proof -
  let ?input = "js ''../../../etc/passwd''"
  have t: "map name (filter (\<lambda>p. exec_search (pattern p) ?input \<noteq> None) DANGEROUS_PATTERNS)
      = [''Path Traversal'']"
    by (simp add: DANGEROUS_PATTERNS_def eval_regex)
  have w: "foldl step ?input DANGEROUS_PATTERNS = js ''[BLOCKED][BLOCKED][BLOCKED]etc/passwd''"
    by (simp add: DANGEROUS_PATTERNS_def eval_regex)
  have e: "html_encode (js ''[BLOCKED][BLOCKED][BLOCKED]etc/passwd'')
      = js ''[BLOCKED][BLOCKED][BLOCKED]etc/passwd''"
    by (rule html_encode_id) (simp add: js_def)
  show ?thesis
    unfolding sanitizeInput_fold fst_conv t w e ..
qed

section \<open>Sanitizer: the claims\<close>

text \<open>
  Claim C1 ties the replacement of a pattern to the pattern matching the input. The code
  tests the input only to decide on the label, and replaces in the working copy in every
  round. On the input \<^verbatim>\<open><img <script>\<close>, a line feed, \<^verbatim>\<open></script> onerror\<close> the Image XSS
  pattern does not match the input and its label is not reported, but after the first
  round the working copy is \<^verbatim>\<open><img [BLOCKED] onerror\<close>, which the Image XSS round replaces:
  the result is \<^verbatim>\<open>[BLOCKED]\<close> and not \<^verbatim>\<open>&lt;img [BLOCKED] onerror\<close>.
\<close>

theorem replaced_without_match_counterexample:
  "\<not> fst (regexp_test (pattern (DANGEROUS_PATTERNS ! 7))
          (js (''<img <script>'' @ [CHR 0x0A] @ ''</script> onerror''))) \<and>
   name (DANGEROUS_PATTERNS ! 7) = ''Image XSS'' \<and>
   threats (fst (sanitizeInput DANGEROUS_PATTERNS
     (js (''<img <script>'' @ [CHR 0x0A] @ ''</script> onerror'')))) = [''XSS Script Tag''] \<and>
   fst (regexp_replace (pattern (DANGEROUS_PATTERNS ! 0)) BLOCKED
     (js (''<img <script>'' @ [CHR 0x0A] @ ''</script> onerror''))) = js ''<img [BLOCKED] onerror'' \<and>
   fst (regexp_replace (pattern (DANGEROUS_PATTERNS ! 7)) BLOCKED (js ''<img [BLOCKED] onerror''))
     = js ''[BLOCKED]'' \<and>
   sanitized (fst (sanitizeInput DANGEROUS_PATTERNS
     (js (''<img <script>'' @ [CHR 0x0A] @ ''</script> onerror'')))) = js ''[BLOCKED]'' \<and>
   html_encode (js ''<img [BLOCKED] onerror'') = js ''&lt;img [BLOCKED] onerror''"
proof -
  have a: "\<not> fst (regexp_test (pattern (DANGEROUS_PATTERNS ! 7))
          (js (''<img <script>'' @ [CHR 0x0A] @ ''</script> onerror'')))"
    by (simp add: DANGEROUS_PATTERNS_def regexp_test_def eval_regex)
  have b: "name (DANGEROUS_PATTERNS ! 7) = ''Image XSS''"
    by (simp add: DANGEROUS_PATTERNS_def)
  have c: "fst (regexp_replace (pattern (DANGEROUS_PATTERNS ! 0)) BLOCKED
     (js (''<img <script>'' @ [CHR 0x0A] @ ''</script> onerror''))) = js ''<img [BLOCKED] onerror''"
    by (simp add: DANGEROUS_PATTERNS_def regexp_replace_def eval_regex)
  have d: "fst (regexp_replace (pattern (DANGEROUS_PATTERNS ! 7)) BLOCKED (js ''<img [BLOCKED] onerror''))
     = js ''[BLOCKED]''"
    by (simp add: DANGEROUS_PATTERNS_def regexp_replace_def eval_regex)
  have e: "html_encode (js ''<img [BLOCKED] onerror'') = js ''&lt;img [BLOCKED] onerror''"
    by (simp add: html_encode_entity entity_def js_def)
  have f: "threats (fst (sanitizeInput DANGEROUS_PATTERNS
     (js (''<img <script>'' @ [CHR 0x0A] @ ''</script> onerror'')))) = [''XSS Script Tag'']"
    unfolding replaced_without_report_example by simp
  have g: "sanitized (fst (sanitizeInput DANGEROUS_PATTERNS
     (js (''<img <script>'' @ [CHR 0x0A] @ ''</script> onerror'')))) = js ''[BLOCKED]''"
    unfolding replaced_without_report_example by simp
  from a b f c d g e show ?thesis
    by (intro conjI)
qed

text \<open>
  Claim C1, amended. \<^verbatim>\<open>sanitizeInput\<close> goes through the patterns in the order of the list.
  The label of a pattern is reported, once, exactly when the pattern matches the input.
  In every round, whether or not the pattern matched the input, all matches of the
  pattern in the working copy are replaced by the placeholder, from left to right, after
  which the pattern matches nowhere in the working copy; the next round works on the
  result, and the last working copy is entity-encoded. The pattern objects are left as
  they were. The rounds are sequential, so an earlier replacement can change whether a
  later pattern matches the working copy: on \<^verbatim>\<open><script>javascript:</script>\<close> the second
  pattern matches the input but not the working copy after the first round.
\<close>

theorem sanitizeInput_rounds:
  "(\<exists>ws. length ws = Suc (length DANGEROUS_PATTERNS) \<and> ws ! 0 = input \<and>
        (\<forall>k < length DANGEROUS_PATTERNS.
            replaces_all (pattern (DANGEROUS_PATTERNS ! k)) BLOCKED (ws ! k) (ws ! Suc k) \<and>
            \<not> matches_somewhere (pattern (DANGEROUS_PATTERNS ! k)) (ws ! Suc k)) \<and>
        sanitized (fst (sanitizeInput DANGEROUS_PATTERNS input)) = concat (map entity (last ws))) \<and>
   threats (fst (sanitizeInput DANGEROUS_PATTERNS input))
     = map name (filter (\<lambda>p. matches_somewhere (pattern p) input) DANGEROUS_PATTERNS) \<and>
   snd (sanitizeInput DANGEROUS_PATTERNS input) = DANGEROUS_PATTERNS \<and>
   matches_somewhere (pattern (DANGEROUS_PATTERNS ! 1)) (js ''<script>javascript:</script>'') \<and>
   replaces_all (pattern (DANGEROUS_PATTERNS ! 0)) BLOCKED
     (js ''<script>javascript:</script>'') (js ''[BLOCKED]'') \<and>
   \<not> matches_somewhere (pattern (DANGEROUS_PATTERNS ! 1)) (js ''[BLOCKED]'')"
proof -
  from working_copies [of input] obtain ws where ws:
    "length ws = Suc (length DANGEROUS_PATTERNS)" "ws ! 0 = input"
    "\<forall>k < length DANGEROUS_PATTERNS.
        replaces_all (pattern (DANGEROUS_PATTERNS ! k)) BLOCKED (ws ! k) (ws ! Suc k) \<and>
        \<not> matches_somewhere (pattern (DANGEROUS_PATTERNS ! k)) (ws ! Suc k)"
    "last ws = foldl step input DANGEROUS_PATTERNS"
    by blast
  have "sanitized (fst (sanitizeInput DANGEROUS_PATTERNS input)) = concat (map entity (last ws))"
    by (simp add: sanitizeInput_fold ws(4) html_encode_entity)
  with ws(1-3) have a: "\<exists>ws. length ws = Suc (length DANGEROUS_PATTERNS) \<and> ws ! 0 = input \<and>
        (\<forall>k < length DANGEROUS_PATTERNS.
            replaces_all (pattern (DANGEROUS_PATTERNS ! k)) BLOCKED (ws ! k) (ws ! Suc k) \<and>
            \<not> matches_somewhere (pattern (DANGEROUS_PATTERNS ! k)) (ws ! Suc k)) \<and>
        sanitized (fst (sanitizeInput DANGEROUS_PATTERNS input)) = concat (map entity (last ws))"
    by blast
  have "filter (\<lambda>p. exec_search (pattern p) input \<noteq> None) DANGEROUS_PATTERNS
      = filter (\<lambda>p. matches_somewhere (pattern p) input) DANGEROUS_PATTERNS"
    by (intro filter_cong refl) (simp add: exec_search_None_somewhere)
  then have b: "threats (fst (sanitizeInput DANGEROUS_PATTERNS input))
      = map name (filter (\<lambda>p. matches_somewhere (pattern p) input) DANGEROUS_PATTERNS)"
    by (simp add: sanitizeInput_fold)
  have c: "snd (sanitizeInput DANGEROUS_PATTERNS input) = DANGEROUS_PATTERNS"
    by (simp add: sanitizeInput_fold)
  have "exec_search (pattern (DANGEROUS_PATTERNS ! 1)) (js ''<script>javascript:</script>'') \<noteq> None"
    by (simp add: DANGEROUS_PATTERNS_def eval_regex)
  then have d: "matches_somewhere (pattern (DANGEROUS_PATTERNS ! 1)) (js ''<script>javascript:</script>'')"
    by (simp add: exec_search_None_somewhere)
  have "replace_loop (pattern (DANGEROUS_PATTERNS ! 0)) BLOCKED (js ''<script>javascript:</script>'')
      = js ''[BLOCKED]''"
    by (simp add: DANGEROUS_PATTERNS_def eval_regex)
  moreover have "\<not> nullable (source (pattern (DANGEROUS_PATTERNS ! 0)))"
    by (rule patterns_not_nullable) (simp add: DANGEROUS_PATTERNS_def)
  ultimately have e: "replaces_all (pattern (DANGEROUS_PATTERNS ! 0)) BLOCKED
      (js ''<script>javascript:</script>'') (js ''[BLOCKED]'')"
    using replace_loop_replaces_all by metis
  have "exec_search (pattern (DANGEROUS_PATTERNS ! 1)) (js ''[BLOCKED]'') = None"
    by (simp add: DANGEROUS_PATTERNS_def eval_regex)
  then have f: "\<not> matches_somewhere (pattern (DANGEROUS_PATTERNS ! 1)) (js ''[BLOCKED]'')"
    by (simp add: exec_search_None_somewhere)
  from a b c d e f show ?thesis by blast
qed

theorem sanitizeInput_rounds_witness:
  "(\<exists>ws. length ws = 9 \<and> ws ! 0 = js ''hello ../ world'' \<and>
      replaces_all (pattern (DANGEROUS_PATTERNS ! 5)) BLOCKED (ws ! 5) (ws ! 6) \<and>
      \<not> matches_somewhere (pattern (DANGEROUS_PATTERNS ! 5)) (ws ! 6) \<and>
      js ''hello [BLOCKED] world'' = concat (map entity (last ws))) \<and>
   threats (fst (sanitizeInput DANGEROUS_PATTERNS (js ''hello ../ world''))) = [''Path Traversal'']"
proof -
  have n: "length DANGEROUS_PATTERNS = 8" by (simp add: DANGEROUS_PATTERNS_def)
  then have k: "5 < length DANGEROUS_PATTERNS" by simp
  have s: "sanitized (fst (sanitizeInput DANGEROUS_PATTERNS (js ''hello ../ world'')))
      = js ''hello [BLOCKED] world''"
    by (simp add: sanitize_path_example)
  from sanitizeInput_rounds [of "js ''hello ../ world''"] obtain ws where
    len: "length ws = Suc (length DANGEROUS_PATTERNS)" and z: "ws ! 0 = js ''hello ../ world''"
    and r: "\<forall>k < length DANGEROUS_PATTERNS.
        replaces_all (pattern (DANGEROUS_PATTERNS ! k)) BLOCKED (ws ! k) (ws ! Suc k) \<and>
        \<not> matches_somewhere (pattern (DANGEROUS_PATTERNS ! k)) (ws ! Suc k)"
    and e: "sanitized (fst (sanitizeInput DANGEROUS_PATTERNS (js ''hello ../ world'')))
       = concat (map entity (last ws))"
    by blast
  from r [rule_format, OF k] have r5:
    "replaces_all (pattern (DANGEROUS_PATTERNS ! 5)) BLOCKED (ws ! 5) (ws ! 6)"
    "\<not> matches_somewhere (pattern (DANGEROUS_PATTERNS ! 5)) (ws ! 6)"
    by (simp_all add: eval_nat_numeral)
  from len n have l9: "length ws = 9" by simp
  from e s have e': "js ''hello [BLOCKED] world'' = concat (map entity (last ws))" by simp
  from l9 z r5 e' have "\<exists>ws. length ws = 9 \<and> ws ! 0 = js ''hello ../ world'' \<and>
      replaces_all (pattern (DANGEROUS_PATTERNS ! 5)) BLOCKED (ws ! 5) (ws ! 6) \<and>
      \<not> matches_somewhere (pattern (DANGEROUS_PATTERNS ! 5)) (ws ! 6) \<and>
      js ''hello [BLOCKED] world'' = concat (map entity (last ws))"
    by blast
  moreover have "threats (fst (sanitizeInput DANGEROUS_PATTERNS (js ''hello ../ world'')))
      = [''Path Traversal'']"
    by (simp add: sanitize_path_example)
  ultimately show ?thesis ..
qed

text \<open>
  Claim C3 states that sanitizing the sanitized text again reports nothing and returns
  it unchanged. The entity for \<^verbatim>\<open><\<close> ends with a semicolon, which the Command Injection
  pattern picks up when a command name follows: for the input \<^verbatim>\<open><ls\<close> the sanitized text
  is \<^verbatim>\<open>&lt;ls\<close>, and sanitizing that reports Command Injection and returns
  \<^verbatim>\<open>&lt[BLOCKED]\<close>.
\<close>

theorem resanitize_counterexample:
  "sanitized (fst (sanitizeInput DANGEROUS_PATTERNS (js ''<ls''))) = js ''&lt;ls'' \<and>
   threats (fst (sanitizeInput DANGEROUS_PATTERNS
     (sanitized (fst (sanitizeInput DANGEROUS_PATTERNS (js ''<ls'')))))) = [''Command Injection''] \<and>
   sanitized (fst (sanitizeInput DANGEROUS_PATTERNS
     (sanitized (fst (sanitizeInput DANGEROUS_PATTERNS (js ''<ls'')))))) = js ''&lt[BLOCKED]'' \<and>
   js ''&lt[BLOCKED]'' \<noteq> js ''&lt;ls''"
  by (simp add: sanitize_ls_example sanitize_entity_ls_example) (simp add: js_def)

text \<open>
  Claim C3, amended. For every input, let \<open>t\<close> be the sanitized text. The entity encoding
  leaves \<open>t\<close> unchanged. Sanitizing \<open>t\<close> again reports Command Injection if that pattern
  matches \<open>t\<close> and nothing otherwise, and returns \<open>t\<close> with the matches of that pattern
  replaced by the placeholder; in particular, when the Command Injection pattern does not
  match \<open>t\<close>, the result is \<open>t\<close> with no threats.
\<close>

theorem resanitize_only_command_injection:
  "let t = sanitized (fst (sanitizeInput DANGEROUS_PATTERNS input));
       ci = pattern (DANGEROUS_PATTERNS ! 4);
       r = fst (sanitizeInput DANGEROUS_PATTERNS t)
   in html_encode t = t \<and>
      threats r = (if fst (regexp_test ci t) then [''Command Injection''] else []) \<and>
      sanitized r = fst (regexp_replace ci BLOCKED t) \<and>
      (\<not> fst (regexp_test ci t) \<longrightarrow> r = \<lparr>sanitized = t, threats = []\<rparr>)"
proof -
  define t where "t = sanitized (fst (sanitizeInput DANGEROUS_PATTERNS input))"
  define ci where "ci = pattern (DANGEROUS_PATTERNS ! 4)"
  define r where "r = fst (sanitizeInput DANGEROUS_PATTERNS t)"
  have q: "quiet t"
    unfolding t_def by (rule first_pass_quiet)
  have fresh: "lastIndex ci = 0"
    unfolding ci_def using DANGEROUS_PATTERNS_fresh patterns_names(3)
    by (subst (asm) patterns_split) simp
  have tst: "fst (regexp_test ci t) = (exec_search ci t \<noteq> None)"
    using fresh by (rule regexp_test_fresh)
  have r: "r = \<lparr>sanitized = replace_loop ci BLOCKED t,
                threats = (if exec_search ci t \<noteq> None then [''Command Injection''] else [])\<rparr>"
    unfolding r_def ci_def using q by (rule resanitize)
  have a: "html_encode t = t"
    using q by (intro html_encode_id) (simp add: quiet_def)
  have b: "threats r = (if fst (regexp_test ci t) then [''Command Injection''] else [])"
    by (simp add: r tst)
  have c: "sanitized r = fst (regexp_replace ci BLOCKED t)"
    by (simp add: r regexp_replace_def)
  have d: "\<not> fst (regexp_test ci t) \<longrightarrow> r = \<lparr>sanitized = t, threats = []\<rparr>"
    by (simp add: r tst replace_loop_id)
  from a b c d show ?thesis
    unfolding Let_def t_def [symmetric] ci_def [symmetric] r_def [symmetric] by blast
qed

theorem resanitize_only_command_injection_witness:
  "\<not> fst (regexp_test (pattern (DANGEROUS_PATTERNS ! 4)) (js ''[BLOCKED]'')) \<and>
   fst (sanitizeInput DANGEROUS_PATTERNS
     (sanitized (fst (sanitizeInput DANGEROUS_PATTERNS (js ''<script>alert(1)</script>'')))))
     = \<lparr>sanitized = js ''[BLOCKED]'', threats = []\<rparr>"
proof -
  have t: "sanitized (fst (sanitizeInput DANGEROUS_PATTERNS (js ''<script>alert(1)</script>'')))
      = js ''[BLOCKED]''"
    by (simp add: sanitize_script_example)
  have n: "\<not> fst (regexp_test (pattern (DANGEROUS_PATTERNS ! 4)) (js ''[BLOCKED]''))"
    by (simp add: DANGEROUS_PATTERNS_def regexp_test_def eval_regex)
  from resanitize_only_command_injection [of "js ''<script>alert(1)</script>''"] n
  show ?thesis
    unfolding Let_def t by simp
qed

text \<open>
  Claim C7. On \<^verbatim>\<open><script>alert(1)</script>\<close> the threats contain the label
  \<^verbatim>\<open>XSS Script Tag\<close> and the sanitized text does not contain \<^verbatim>\<open><script>\<close>; the result is
  the placeholder alone with that one label. On the empty string the result is the empty
  string with no threats.
\<close>

theorem sanitize_script_tag_and_empty:
  "''XSS Script Tag''
     \<in> set (threats (fst (sanitizeInput DANGEROUS_PATTERNS (js ''<script>alert(1)</script>'')))) \<and>
   \<not> sublist (js ''<script>'')
       (sanitized (fst (sanitizeInput DANGEROUS_PATTERNS (js ''<script>alert(1)</script>'')))) \<and>
   fst (sanitizeInput DANGEROUS_PATTERNS (js ''<script>alert(1)</script>''))
     = \<lparr>sanitized = js ''[BLOCKED]'', threats = [''XSS Script Tag'']\<rparr> \<and>
   fst (sanitizeInput DANGEROUS_PATTERNS (js '''')) = \<lparr>sanitized = js '''', threats = []\<rparr>"
proof -
  have "\<not> set (js ''<script>'') \<subseteq> set (js ''[BLOCKED]'')"
    by (simp add: js_def)
  then have "\<not> sublist (js ''<script>'') (js ''[BLOCKED]'')"
    using set_mono_sublist by blast
  then show ?thesis
    by (simp add: sanitize_script_example sanitize_empty_example)
qed

text \<open>
  Claim C8. For every input the threats are a subsequence of the labels of the pattern
  list, in the order of the list, and no label occurs twice.
\<close>

theorem threats_subseq_of_pattern_names:
  "subseq (threats (fst (sanitizeInput DANGEROUS_PATTERNS input))) (map name DANGEROUS_PATTERNS) \<and>
   distinct (threats (fst (sanitizeInput DANGEROUS_PATTERNS input)))"
proof -
  have d: "distinct (map name DANGEROUS_PATTERNS)"
    by (simp add: DANGEROUS_PATTERNS_def)
  have "subseq (map name (filter P DANGEROUS_PATTERNS)) (map name DANGEROUS_PATTERNS)" for P
    by (intro subseq_map subseq_filter_left)
  moreover have "distinct (map name (filter P DANGEROUS_PATTERNS))" for P
    using d by (rule distinct_map_filter)
  ultimately show ?thesis
    by (simp add: sanitizeInput_fold)
qed

text \<open>
  Claim C9. For every input the sanitized text contains none of the characters
  \<^verbatim>\<open><\<close>, \<^verbatim>\<open>>\<close>, the double quote and the single quote, because the entity encoding
  leaves none of them in any text.
\<close>

theorem sanitized_has_no_markup_chars:
  "set (sanitized (fst (sanitizeInput DANGEROUS_PATTERNS input)))
     \<inter> set (js [CHR ''<'', CHR ''>'', CHR 0x22, CHR 0x27]) = {} \<and>
   (\<forall>s. set (html_encode s) \<inter> set (js [CHR ''<'', CHR ''>'', CHR 0x22, CHR 0x27]) = {})"
proof -
  have "set (html_encode s) \<inter> set (js [CHR ''<'', CHR ''>'', CHR 0x22, CHR 0x27]) = {}" for s
    using html_encode_chars [of s] by (simp add: js_def)
  then show ?thesis
    by (simp add: sanitizeInput_fold)
qed

end
